theory Spec2Isabelle
  imports Main
begin

section \<open>Data model\<close>

text \<open>
  A record of the remote API is a Python \<open>dict\<close> with string keys, as \<open>resp.json()\<close>
  builds it: an association list in key order. The values are opaque to the pipeline
  (type \<open>'v\<close>). \<open>dict_get\<close> is \<open>dict.get(key)\<close> with its default \<open>None\<close>.
\<close>

type_synonym 'v pyrecord = "(string \<times> 'v) list"

definition dict_get :: "'v pyrecord \<Rightarrow> string \<Rightarrow> 'v option" where
  "dict_get d k = map_of d k"

text \<open>
  The exceptions of a run. \<open>HTTPStatusError st body\<close> is the \<open>RuntimeError\<close> of
  \<open>iter_pages\<close>, whose message is built from the status code \<open>st\<close> and the excerpt
  \<open>body\<close> of the response text; \<open>MissingEnvError ks\<close> is the \<open>RuntimeError\<close> of
  \<open>get_snowflake_config\<close>, whose message joins the names \<open>ks\<close>. The other three are raised
  by the libraries: \<open>requests\<close> (network), the file object, and the warehouse connector.
\<close>

datatype error =
    HTTPStatusError int string
  | MissingEnvError "string list"
  | TransportError
  | IOError
  | WarehouseError

subsection \<open>Requests and responses\<close>

text \<open>
  \<open>build_url\<close> returns the endpoint of the indicator followed by the encoded query
  parameters. The model keeps the parameters themselves: \<open>$top\<close>, \<open>$skip\<close>, and
  \<open>$select\<close> and \<open>$filter\<close> when the argument is truthy (neither \<open>None\<close> nor empty).
\<close>

record url =
  u_indicator :: string
  u_top :: int
  u_skip :: int
  u_select :: "string option"
  u_filter :: "string option"

definition truthy_str :: "string option \<Rightarrow> string option" where
  "truthy_str s = (case s of None \<Rightarrow> None | Some x \<Rightarrow> if x = [] then None else Some x)"

definition build_url :: "string \<Rightarrow> int \<Rightarrow> int \<Rightarrow> string option \<Rightarrow> string option \<Rightarrow> url" where
  "build_url indicator skip top' select filters =
     \<lparr>u_indicator = indicator, u_top = top', u_skip = skip,
      u_select = truthy_str select, u_filter = truthy_str filters\<rparr>"

text \<open>
  What \<open>iter_pages\<close> reads of a response: \<open>status_code\<close>, \<open>text\<close> (here
  \<open>resp_text\<close>), and the entry \<open>"value"\<close> of the decoded body (\<open>None\<close> when the
  object has no such key).
\<close>

record 'v response =
  status_code :: int
  resp_text :: string
  json_value :: "'v pyrecord list option"

type_synonym 'v get_result = "error + 'v response"

text \<open>One fetch call of a run: the request and what \<open>session.get\<close> gave back.\<close>

type_synonym 'v call = "url \<times> 'v get_result"

text \<open>
  The session and the server behind it: the answer to a request may depend on the calls
  made before it in the run (oldest first). \<open>Inl e\<close> is \<open>session.get\<close> raising \<open>e\<close>.
\<close>

type_synonym 'v session = "'v call list \<Rightarrow> url \<Rightarrow> 'v get_result"

subsection \<open>The record sequence of a generator\<close>

text \<open>
  What a consumer sees of an iterable of records: the records it yields, in order, and
  how it ends: by returning, by raising, or not within the steps the model was given
  (\<open>Pending\<close>).
\<close>

datatype 'v rows =
    Yield "'v pyrecord" "'v rows"
  | Return
  | Raise error
  | Pending

fun yield_all :: "'v pyrecord list \<Rightarrow> 'v rows \<Rightarrow> 'v rows" where
  "yield_all [] s = s"
| "yield_all (r # rs) s = Yield r (yield_all rs s)"

fun yielded :: "'v rows \<Rightarrow> 'v pyrecord list" where
  "yielded (Yield r s) = r # yielded s"
| "yielded s = []"

fun ending :: "'v rows \<Rightarrow> 'v rows" where
  "ending (Yield r s) = ending s"
| "ending s = s"

section \<open>Pagination Driver: \<open>iter_pages\<close>\<close>

record params =
  indicator :: string
  page_size :: int
  max_rows :: "int option"
  select :: "string option"
  filters :: "string option"

text \<open>
  The head of the loop body: the page size to request, or \<open>None\<close> where the source
  returns because the row cap is used up.
\<close>

definition next_top :: "params \<Rightarrow> int \<Rightarrow> int option" where
  "next_top ps fetched =
     (case max_rows ps of
        None \<Rightarrow> Some (page_size ps)
      | Some m \<Rightarrow>
          (let remaining = m - fetched
           in if remaining \<le> 0 then None else Some (min (page_size ps) remaining)))"

definition rows_of :: "'v response \<Rightarrow> 'v pyrecord list" where
  "rows_of resp = (case json_value resp of None \<Rightarrow> [] | Some rs \<Rightarrow> rs)"

text \<open>
  The \<open>while True\<close> loop, one iteration per unit of fuel, from the values of
  \<open>fetched\<close> and \<open>skip\<close> at its head. The result is the log of the fetch calls (the
  calls made before, then the new ones, oldest first) and the record sequence produced.
  The pause between pages (\<open>sleep_s\<close>) and the request timeout have no effect on
  either.
\<close>

fun iter_pages_loop ::
  "nat \<Rightarrow> 'v session \<Rightarrow> params \<Rightarrow> int \<Rightarrow> int \<Rightarrow> 'v call list \<Rightarrow> 'v call list \<times> 'v rows"
where
  "iter_pages_loop 0 session ps fetched skip calls = (calls, Pending)"
| "iter_pages_loop (Suc fuel) session ps fetched skip calls =
     (case next_top ps fetched of
        None \<Rightarrow> (calls, Return)
      | Some top' \<Rightarrow>
          (let url = build_url (indicator ps) skip top' (select ps) (filters ps)
           in case session calls url of
                Inl e \<Rightarrow> (calls @ [(url, Inl e)], Raise e)
              | Inr resp \<Rightarrow>
                  if status_code resp \<noteq> 200
                  then (calls @ [(url, Inr resp)],
                        Raise (HTTPStatusError (status_code resp) (take 500 (resp_text resp))))
                  else
                    (let rows = rows_of resp
                     in if rows = [] then (calls @ [(url, Inr resp)], Return)
                        else
                          (case iter_pages_loop fuel session ps
                                  (fetched + int (length rows)) (skip + int (length rows))
                                  (calls @ [(url, Inr resp)])
                           of (calls', s) \<Rightarrow> (calls', yield_all rows s)))))"

definition iter_pages :: "nat \<Rightarrow> 'v session \<Rightarrow> params \<Rightarrow> 'v call list \<times> 'v rows" where
  "iter_pages fuel session ps = iter_pages_loop fuel session ps 0 0 []"

text \<open>The number of records a fetch call delivered to the loop.\<close>

definition received :: "'v call \<Rightarrow> nat" where
  "received c =
     (case snd c of
        Inl e \<Rightarrow> 0
      | Inr resp \<Rightarrow> if status_code resp = 200 then length (rows_of resp) else 0)"

definition cursors :: "'v call list \<Rightarrow> int list" where
  "cursors calls = map (\<lambda>c. u_skip (fst c)) calls"

text \<open>The cumulative counts: entry \<open>i\<close> is \<open>start\<close> plus the counts before position \<open>i\<close>.\<close>

fun running_total :: "int \<Rightarrow> nat list \<Rightarrow> int list" where
  "running_total start [] = []"
| "running_total start (n # ns) = start # running_total (start + int n) ns"

fun strictly_increasing :: "int list \<Rightarrow> bool" where
  "strictly_increasing [] = True"
| "strictly_increasing [x] = True"
| "strictly_increasing (x # y # ys) = (x < y \<and> strictly_increasing (y # ys))"

section \<open>The world of a run: files, environment variables, warehouse\<close>

text \<open>
  A row of the warehouse table: indicator, ingest date, correlation id, payload.
\<close>

type_synonym 'v wh_row = "string \<times> string \<times> 'v option \<times> string"

text \<open>
  The calls on the warehouse connection that succeeded, in order: \<open>connect\<close> with its
  configuration, the \<open>CREATE TABLE IF NOT EXISTS\<close> of a table, one \<open>executemany\<close>
  insert of a batch into a table, \<open>commit\<close>, \<open>close\<close>.
\<close>

datatype 'v wh_event =
    Connect "(string \<times> string) list"
  | CreateTable string
  | ExecuteMany string "'v wh_row list"
  | Commit
  | Close

record 'v world =
  environ :: "string \<Rightarrow> string option"
  files :: "string \<Rightarrow> string option"
  warehouse :: "'v wh_event list"

text \<open>
  The operations that can fail: those on the warehouse connection, opening the output
  file for writing, and a write to it.
\<close>

datatype 'v effect =
    Wh "'v wh_event"
  | FileOpen string
  | FileWrite string string

text \<open>
  What the program does not decide: which operation fails, in which state of the world
  (\<open>fails\<close>), and the text \<open>json.dumps(r, ensure_ascii=False)\<close> of a record.
  The model lets \<open>cursor()\<close> and \<open>close()\<close> always succeed.
\<close>

record 'v runtime =
  fails :: "'v world \<Rightarrow> 'v effect \<Rightarrow> bool"
  json_dumps :: "'v pyrecord \<Rightarrow> string"

definition wh_call :: "'v runtime \<Rightarrow> 'v world \<Rightarrow> 'v wh_event \<Rightarrow> error + 'v world" where
  "wh_call rt w ev =
     (if fails rt w (Wh ev) then Inl WarehouseError
      else Inr (w\<lparr>warehouse := warehouse w @ [ev]\<rparr>))"

text \<open>\<open>path.open("w")\<close>: creates the file, or truncates it.\<close>

definition open_w :: "'v runtime \<Rightarrow> 'v world \<Rightarrow> string \<Rightarrow> error + 'v world" where
  "open_w rt w path =
     (if fails rt w (FileOpen path) then Inl IOError
      else Inr (w\<lparr>files := (files w)(path \<mapsto> [])\<rparr>))"

text \<open>\<open>f.write(s)\<close> on the file opened at \<open>path\<close>: appends.\<close>

definition f_write :: "'v runtime \<Rightarrow> 'v world \<Rightarrow> string \<Rightarrow> string \<Rightarrow> error + 'v world" where
  "f_write rt w path s =
     (if fails rt w (FileWrite path s) then Inl IOError
      else Inr (w\<lparr>files := (files w)(path \<mapsto> (case files w path of None \<Rightarrow> s | Some c \<Rightarrow> c @ s))\<rparr>))"

section \<open>Raw Sink: \<open>write_jsonl\<close>\<close>

text \<open>
  The \<open>for r in rows\<close> loop, with the count \<open>n\<close> so far. An exception leaves the
  \<open>with\<close> block, which closes the file: what was written stays. \<open>None\<close>: the sequence
  has not ended within the model's steps.
\<close>

fun write_jsonl_loop ::
  "'v runtime \<Rightarrow> string \<Rightarrow> 'v rows \<Rightarrow> nat \<Rightarrow> 'v world \<Rightarrow> ((error + nat) \<times> 'v world) option"
where
  "write_jsonl_loop rt path (Yield r s) n w =
     (case f_write rt w path (json_dumps rt r) of
        Inl e \<Rightarrow> Some (Inl e, w)
      | Inr w1 \<Rightarrow>
          (case f_write rt w1 path [CHR 0x0A] of
             Inl e \<Rightarrow> Some (Inl e, w1)
           | Inr w2 \<Rightarrow> write_jsonl_loop rt path s (n + 1) w2))"
| "write_jsonl_loop rt path Return n w = Some (Inr n, w)"
| "write_jsonl_loop rt path (Raise e) n w = Some (Inl e, w)"
| "write_jsonl_loop rt path Pending n w = None"

definition write_jsonl ::
  "'v runtime \<Rightarrow> string \<Rightarrow> 'v rows \<Rightarrow> 'v world \<Rightarrow> ((error + nat) \<times> 'v world) option"
where
  "write_jsonl rt path rows w =
     (case open_w rt w path of
        Inl e \<Rightarrow> Some (Inl e, w)
      | Inr w0 \<Rightarrow> write_jsonl_loop rt path rows 0 w0)"

section \<open>Warehouse Sink: \<open>write_jsonl_and_snowflake\<close>\<close>

definition env_map :: "(string \<times> string) list" where
  "env_map =
     [(''SNOWFLAKE_ACCOUNT'', ''account''),
      (''SNOWFLAKE_USER'', ''user''),
      (''SNOWFLAKE_PASSWORD'', ''password''),
      (''SNOWFLAKE_WAREHOUSE'', ''warehouse''),
      (''SNOWFLAKE_DATABASE'', ''database''),
      (''SNOWFLAKE_SCHEMA'', ''schema'')]"

definition optional_env_map :: "(string \<times> string) list" where
  "optional_env_map = [(''SNOWFLAKE_ROLE'', ''role'')]"

text \<open>\<open>os.getenv(k)\<close> is falsy when the variable is unset or empty.\<close>

definition getenv_truthy :: "(string \<Rightarrow> string option) \<Rightarrow> string \<Rightarrow> string option" where
  "getenv_truthy env k = truthy_str (env k)"

fun read_env ::
  "(string \<Rightarrow> string option) \<Rightarrow> (string \<times> string) list
     \<Rightarrow> (string \<times> string) list \<times> string list"
where
  "read_env env [] = ([], [])"
| "read_env env ((env_key, cfg_key) # rest) =
     (case read_env env rest of
        (config, missing) \<Rightarrow>
          (case getenv_truthy env env_key of
             None \<Rightarrow> (config, env_key # missing)
           | Some v \<Rightarrow> ((cfg_key, v) # config, missing)))"

definition get_snowflake_config ::
  "(string \<Rightarrow> string option) \<Rightarrow> error + (string \<times> string) list"
where
  "get_snowflake_config env =
     (case read_env env env_map of
        (config, missing) \<Rightarrow>
          (let config' = config @ fst (read_env env optional_env_map)
           in if missing \<noteq> [] then Inl (MissingEnvError missing) else Inr config'))"

definition connect_to_snowflake ::
  "'v runtime \<Rightarrow> 'v world \<Rightarrow> (string \<times> string) list \<Rightarrow> error + 'v world"
where
  "connect_to_snowflake rt w config = wh_call rt w (Connect config)"

definition ensure_snowflake_table :: "'v runtime \<Rightarrow> 'v world \<Rightarrow> string \<Rightarrow> error + 'v world" where
  "ensure_snowflake_table rt w table_name = wh_call rt w (CreateTable table_name)"

text \<open>
  The \<open>for row in rows\<close> loop of the dual sink, with the count \<open>n\<close> and the batch
  accumulated so far. It ends with the count and the batch left over, or with the
  exception that left it.
\<close>

fun snowflake_loop ::
  "'v runtime \<Rightarrow> string \<Rightarrow> string \<Rightarrow> string \<Rightarrow> string \<Rightarrow> int \<Rightarrow> 'v rows \<Rightarrow> nat
     \<Rightarrow> 'v wh_row list \<Rightarrow> 'v world \<Rightarrow> ((error + nat \<times> 'v wh_row list) \<times> 'v world) option"
where
  "snowflake_loop rt path table_name ind ingest_date batch_size (Yield row s) n batch w =
     (let payload = json_dumps rt row
      in case f_write rt w path payload of
           Inl e \<Rightarrow> Some (Inl e, w)
         | Inr w1 \<Rightarrow>
             (case f_write rt w1 path [CHR 0x0A] of
                Inl e \<Rightarrow> Some (Inl e, w1)
              | Inr w2 \<Rightarrow>
                  (let batch' = batch @ [(ind, ingest_date, dict_get row ''Id'', payload)]
                   in if int (length batch') \<ge> batch_size
                      then (case wh_call rt w2 (ExecuteMany table_name batch') of
                              Inl e \<Rightarrow> Some (Inl e, w2)
                            | Inr w3 \<Rightarrow>
                                snowflake_loop rt path table_name ind ingest_date batch_size
                                  s (n + 1) [] w3)
                      else snowflake_loop rt path table_name ind ingest_date batch_size
                             s (n + 1) batch' w2)))"
| "snowflake_loop rt path table_name ind ingest_date batch_size Return n batch w =
     Some (Inr (n, batch), w)"
| "snowflake_loop rt path table_name ind ingest_date batch_size (Raise e) n batch w =
     Some (Inl e, w)"
| "snowflake_loop rt path table_name ind ingest_date batch_size Pending n batch w = None"

text \<open>The body of the \<open>try\<close> block, on the world \<open>w\<close> in which the connection is open.\<close>

definition snowflake_try ::
  "'v runtime \<Rightarrow> string \<Rightarrow> 'v rows \<Rightarrow> string \<Rightarrow> string \<Rightarrow> string \<Rightarrow> int \<Rightarrow> 'v world
     \<Rightarrow> ((error + nat) \<times> 'v world) option"
where
  "snowflake_try rt path rows table_name ind ingest_date batch_size w =
     (case ensure_snowflake_table rt w table_name of
        Inl e \<Rightarrow> Some (Inl e, w)
      | Inr w1 \<Rightarrow>
          (case open_w rt w1 path of
             Inl e \<Rightarrow> Some (Inl e, w1)
           | Inr w2 \<Rightarrow>
               (case snowflake_loop rt path table_name ind ingest_date batch_size rows 0 [] w2 of
                  None \<Rightarrow> None
                | Some (Inl e, w3) \<Rightarrow> Some (Inl e, w3)
                | Some (Inr (n, batch), w3) \<Rightarrow>
                    (case (if batch \<noteq> [] then wh_call rt w3 (ExecuteMany table_name batch)
                           else Inr w3) of
                       Inl e \<Rightarrow> Some (Inl e, w3)
                     | Inr w4 \<Rightarrow>
                         (case wh_call rt w4 Commit of
                            Inl e \<Rightarrow> Some (Inl e, w4)
                          | Inr w5 \<Rightarrow> Some (Inr n, w5))))))"

text \<open>\<open>conn.close()\<close> in the \<open>finally\<close> clause.\<close>

definition conn_close :: "'v world \<Rightarrow> 'v world" where
  "conn_close w = w\<lparr>warehouse := warehouse w @ [Close]\<rparr>"

definition write_jsonl_and_snowflake ::
  "'v runtime \<Rightarrow> string \<Rightarrow> 'v rows \<Rightarrow> string \<Rightarrow> string \<Rightarrow> string \<Rightarrow> int \<Rightarrow> 'v world
     \<Rightarrow> ((error + nat) \<times> 'v world) option"
where
  "write_jsonl_and_snowflake rt path rows table_name ind ingest_date batch_size w =
     (case get_snowflake_config (environ w) of
        Inl e \<Rightarrow> Some (Inl e, w)
      | Inr config \<Rightarrow>
          (case connect_to_snowflake rt w config of
             Inl e \<Rightarrow> Some (Inl e, w)
           | Inr w0 \<Rightarrow>
               (case snowflake_try rt path rows table_name ind ingest_date batch_size w0 of
                  None \<Rightarrow> None
                | Some (res, w') \<Rightarrow> Some (res, conn_close w'))))"

section \<open>Observations on a run\<close>

text \<open>A fetch call that came back with status 200 and no rows: the end-of-data signal.\<close>

definition empty_page :: "'v call \<Rightarrow> bool" where
  "empty_page c =
     (case snd c of
        Inl e \<Rightarrow> False
      | Inr resp \<Rightarrow> status_code resp = 200 \<and> rows_of resp = [])"

text \<open>
  A remote API that holds the list \<open>data\<close> and answers every request with the window
  \<open>$skip\<close>, \<open>$top\<close> of it (the OData contract of the endpoint): \<open>length data\<close> is the
  total number of records available.
\<close>

definition odata_session :: "'v pyrecord list \<Rightarrow> 'v session" where
  "odata_session data calls url =
     Inr \<lparr>status_code = 200, resp_text = [],
          json_value = Some (take (nat (u_top url)) (drop (nat (u_skip url)) data))\<rparr>"

text \<open>The row cap as a number of records; the number \<open>avail\<close> of records available when there is none.\<close>

definition row_limit :: "params \<Rightarrow> nat \<Rightarrow> nat" where
  "row_limit ps avail = (case max_rows ps of None \<Rightarrow> avail | Some m \<Rightarrow> nat m)"

text \<open>A session that never answers with more rows than \<open>$top\<close> asks for.\<close>

definition honours_top :: "'v session \<Rightarrow> bool" where
  "honours_top session =
     (\<forall>calls url resp. session calls url = Inr resp \<longrightarrow> status_code resp = 200
        \<longrightarrow> length (rows_of resp) \<le> nat (u_top url))"

text \<open>The text of a JSON Lines file holding the records \<open>rs\<close>.\<close>

definition jsonl :: "'v runtime \<Rightarrow> 'v pyrecord list \<Rightarrow> string" where
  "jsonl rt rs = concat (map (\<lambda>r. json_dumps rt r @ [CHR 0x0A]) rs)"

text \<open>
  What a sink returns on an input that has ended, from the count \<open>n\<close> at the start: the
  number of records, or the exception the input raised.
\<close>

definition sink_result :: "'v rows \<Rightarrow> nat \<Rightarrow> error + nat" where
  "sink_result s n = (case ending s of Raise e \<Rightarrow> Inl e | _ \<Rightarrow> Inr (n + length (yielded s)))"

text \<open>The batches of the insert calls of a log, and their rows.\<close>

fun insert_batches :: "'v wh_event list \<Rightarrow> 'v wh_row list list" where
  "insert_batches [] = []"
| "insert_batches (ExecuteMany t b # evs) = b # insert_batches evs"
| "insert_batches (ev # evs) = insert_batches evs"

definition inserted_rows :: "'v wh_event list \<Rightarrow> 'v wh_row list" where
  "inserted_rows evs = concat (insert_batches evs)"

text \<open>The row the dual sink builds for a record.\<close>

definition wh_row_of :: "'v runtime \<Rightarrow> string \<Rightarrow> string \<Rightarrow> 'v pyrecord \<Rightarrow> 'v wh_row" where
  "wh_row_of rt ind ingest_date row = (ind, ingest_date, dict_get row ''Id'', json_dumps rt row)"



text \<open>A runtime in which no operation fails.\<close>

definition no_faults :: "'v runtime \<Rightarrow> bool" where
  "no_faults rt = (\<forall>w op. \<not> fails rt w op)"

subsection \<open>The scenarios of the specification\<close>

text \<open>
  Five records behind a well-behaved API; page size 2 with no cap (scenario A) and with
  a cap of 3 (scenario B); a session that fails with status 500 on its second call.
\<close>

definition five_records :: "nat pyrecord list" where
  "five_records = [[(''Id'', 1)], [(''Id'', 2)], [(''Id'', 3)], [(''Id'', 4)], [(''Id'', 5)]]"

definition params_A :: params where
  "params_A = \<lparr>indicator = ''X'', page_size = 2, max_rows = None, select = None, filters = None\<rparr>"

definition params_B :: params where
  "params_B = \<lparr>indicator = ''X'', page_size = 2, max_rows = Some 3, select = None, filters = None\<rparr>"

definition failing_session :: "nat session" where
  "failing_session calls url =
     (if calls = [] then odata_session five_records calls url
      else Inr \<lparr>status_code = 500, resp_text = ''Internal Server Error'', json_value = None\<rparr>)"

text \<open>A runtime without faults; a record is written as the decimal digit of its \<open>Id\<close>.\<close>

definition plain_runtime :: "nat runtime" where
  "plain_runtime =
     \<lparr>fails = (\<lambda>w op. False),
      json_dumps = (\<lambda>r. case dict_get r ''Id'' of None \<Rightarrow> ''{}'' | Some n \<Rightarrow> [char_of (48 + n)])\<rparr>"

definition empty_world :: "nat world" where
  "empty_world = \<lparr>environ = (\<lambda>k. None), files = (\<lambda>p. None), warehouse = []\<rparr>"

text \<open>Three records whose identifying keys differ in case only; one has the key \<open>Id\<close>.\<close>

definition mixed_case_records :: "nat pyrecord list" where
  "mixed_case_records = [[(''id'', 7)], [(''Id'', 8)], [(''ID'', 9)]]"

text \<open>A world without the warehouse variables, with a file left by an earlier run.\<close>

definition stale_world :: "nat world" where
  "stale_world =
     \<lparr>environ = (\<lambda>k. None), files = (\<lambda>p. if p = ''out'' then Some ''old'' else None),
      warehouse = []\<rparr>"

definition configured_world :: "nat world" where
  "configured_world =
     \<lparr>environ = (\<lambda>k. if k \<in> set (map fst env_map) then Some ''x'' else None),
      files = (\<lambda>p. None), warehouse = []\<rparr>"

section \<open>Properties of the Pagination Driver\<close>

subsection \<open>The log of fetch calls\<close>

lemma yielded_yield_all: "yielded (yield_all rs s) = rs @ yielded s"
  by (induction rs) auto

lemma ending_yield_all: "ending (yield_all rs s) = ending s"
  by (induction rs) auto

lemma strictly_increasing_running_total:
  "(\<forall>n \<in> set (butlast ns). 0 < n) \<Longrightarrow> strictly_increasing (running_total k ns)"
proof (induction ns arbitrary: k)
  case Nil
  then show ?case by simp
next
  case (Cons n ns)
  show ?case
  proof (cases ns)
    case Nil
    then show ?thesis by simp
  next
    case (Cons m ms)
    with Cons.prems have "0 < n" and "\<forall>x \<in> set (butlast ns). 0 < x" by auto
    with Cons.IH [of "k + int n"] Cons show ?thesis by simp
  qed
qed

lemma running_total_append:
  "running_total k (ns @ ms) = running_total k ns @ running_total (k + int (sum_list ns)) ms"
  by (induction ns arbitrary: k) (auto simp: algebra_simps)

lemma iter_pages_loop_calls:
  "\<exists>new. fst (iter_pages_loop fuel session ps fetched skip calls) = calls @ new
        \<and> cursors new = running_total skip (map received new)
        \<and> (\<forall>c \<in> set (butlast new). 0 < received c)"
proof (induction fuel arbitrary: fetched skip calls)
  case 0
  show ?case by (simp add: cursors_def)
next
  case (Suc fuel)
  show ?case
  proof (cases "next_top ps fetched")
    case None
    then show ?thesis by (simp add: cursors_def)
  next
    case (Some top')
    define url where "url = build_url (indicator ps) skip top' (select ps) (filters ps)"
    have skip_url: "u_skip url = skip" by (simp add: url_def build_url_def)
    show ?thesis
    proof (cases "session calls url")
      case (Inl e)
      with Some show ?thesis
        by (simp add: url_def [symmetric] cursors_def received_def skip_url)
    next
      case (Inr resp)
      show ?thesis
      proof (cases "status_code resp = 200 \<and> rows_of resp \<noteq> []")
        case False
        with Some Inr show ?thesis
          by (auto simp: url_def [symmetric] cursors_def received_def skip_url Let_def)
      next
        case True
        let ?c = "(url, Inr resp)"
        let ?k = "int (length (rows_of resp))"
        from Suc.IH [of "fetched + ?k" "skip + ?k" "calls @ [?c]"]
        obtain new where new:
          "fst (iter_pages_loop fuel session ps (fetched + ?k) (skip + ?k) (calls @ [?c]))
             = (calls @ [?c]) @ new"
          "cursors new = running_total (skip + ?k) (map received new)"
          "\<forall>c \<in> set (butlast new). 0 < received c"
          by blast
        have rc: "received ?c = length (rows_of resp)" using True by (simp add: received_def)
        have "fst (iter_pages_loop (Suc fuel) session ps fetched skip calls) = calls @ (?c # new)"
          using Some Inr True new(1)
          by (simp add: url_def [symmetric] Let_def case_prod_beta)
        moreover have "cursors (?c # new) = running_total skip (map received (?c # new))"
          using new(2) rc by (simp add: cursors_def skip_url)
        moreover have "\<forall>c \<in> set (butlast (?c # new)). 0 < received c"
          using new(3) rc True by auto
        ultimately show ?thesis by blast
      qed
    qed
  qed
qed


lemma strictly_increasing_distinct: "strictly_increasing xs \<Longrightarrow> distinct xs \<and> (\<forall>y \<in> set xs. hd xs \<le> y)"
proof (induction xs rule: strictly_increasing.induct)
  case 1
  then show ?case by simp
next
  case (2 x)
  then show ?case by simp
next
  case (3 x y ys)
  then show ?case by fastforce
qed

text \<open>
  Claim C5. Within one run of the Pagination Driver, whatever the session answers and
  however long the run is observed, the cursor (\<open>$skip\<close>) of each fetch call is the
  number of records received from the calls before it, starting at 0; the cursors are
  strictly increasing, so none repeats.
\<close>

theorem cursor_sequence:
  "cursors (fst (iter_pages fuel session ps))
     = running_total 0 (map received (fst (iter_pages fuel session ps)))
   \<and> strictly_increasing (cursors (fst (iter_pages fuel session ps)))
   \<and> distinct (cursors (fst (iter_pages fuel session ps)))"
proof -
  obtain new where new:
    "fst (iter_pages fuel session ps) = [] @ new"
    "cursors new = running_total 0 (map received new)"
    "\<forall>c \<in> set (butlast new). 0 < received c"
    unfolding iter_pages_def using iter_pages_loop_calls [of fuel session ps 0 0 "[]"] by blast
  have "\<forall>n \<in> set (butlast (map received new)). 0 < n"
    using new(3) by (simp add: map_butlast [symmetric])
  then have "strictly_increasing (running_total 0 (map received new))"
    by (rule strictly_increasing_running_total)
  with new(1,2) show ?thesis
    by (simp add: strictly_increasing_distinct)
qed

theorem cursor_sequence_witness:
  "cursors (fst (iter_pages 4 (odata_session five_records) params_A)) = [0, 2, 4, 5]
   \<and> map received (fst (iter_pages 4 (odata_session five_records) params_A)) = [2, 2, 1, 0]
   \<and> running_total 0 [2, 2, 1, 0] = [0, 2, 4, 5]
   \<and> strictly_increasing [0, 2, 4, 5]"
proof -
  have c: "cursors (fst (iter_pages 4 (odata_session five_records) params_A)) = [0, 2, 4, 5]"
    by code_simp
  have r: "map received (fst (iter_pages 4 (odata_session five_records) params_A)) = [2, 2, 1, 0]"
    by code_simp
  from cursor_sequence [of 4 "odata_session five_records" params_A] c r
  show ?thesis by simp
qed

lemma received_pos_not_empty: "0 < received c \<Longrightarrow> \<not> empty_page c"
  by (auto simp: received_def empty_page_def split: sum.splits if_splits)

lemma iter_pages_loop_ends_on_empty:
  "\<exists>new. fst (iter_pages_loop fuel session ps fetched skip calls) = calls @ new
        \<and> (new \<noteq> [] \<longrightarrow> empty_page (last new)
             \<longrightarrow> ending (snd (iter_pages_loop fuel session ps fetched skip calls)) = Return)"
proof (induction fuel arbitrary: fetched skip calls)
  case 0
  show ?case by simp
next
  case (Suc fuel)
  show ?case
  proof (cases "next_top ps fetched")
    case None
    then show ?thesis by simp
  next
    case (Some top')
    define url where "url = build_url (indicator ps) skip top' (select ps) (filters ps)"
    show ?thesis
    proof (cases "session calls url")
      case (Inl e)
      with Some show ?thesis
        by (simp add: url_def [symmetric] empty_page_def)
    next
      case (Inr resp)
      show ?thesis
      proof (cases "status_code resp = 200 \<and> rows_of resp \<noteq> []")
        case False
        with Some Inr show ?thesis
          by (auto simp: url_def [symmetric] empty_page_def Let_def)
      next
        case True
        let ?c = "(url, Inr resp)"
        let ?k = "int (length (rows_of resp))"
        let ?rec = "iter_pages_loop fuel session ps (fetched + ?k) (skip + ?k) (calls @ [?c])"
        from Suc.IH [of "fetched + ?k" "skip + ?k" "calls @ [?c]"]
        obtain new where new:
          "fst ?rec = (calls @ [?c]) @ new"
          "new \<noteq> [] \<longrightarrow> empty_page (last new) \<longrightarrow> ending (snd ?rec) = Return"
          by blast
        have unfold: "iter_pages_loop (Suc fuel) session ps fetched skip calls
                        = (fst ?rec, yield_all (rows_of resp) (snd ?rec))"
          using Some Inr True by (simp add: url_def [symmetric] Let_def case_prod_beta)
        have not_empty: "\<not> empty_page ?c" using True by (simp add: empty_page_def)
        have "fst (iter_pages_loop (Suc fuel) session ps fetched skip calls) = calls @ (?c # new)"
          using unfold new(1) by simp
        moreover have "empty_page (last (?c # new))
            \<longrightarrow> ending (snd (iter_pages_loop (Suc fuel) session ps fetched skip calls)) = Return"
          using unfold new(2) not_empty by (auto simp: ending_yield_all)
        ultimately show ?thesis by blast
      qed
    qed
  qed
qed

text \<open>
  Claim C8. A fetch call that returns an empty page is the last call of the run, and the
  record sequence then ends by returning (not by raising), whether or not a row cap is
  set and whatever headroom is left: no fetch call follows an empty page.
\<close>

theorem stops_at_first_empty_page:
  assumes "i < length (fst (iter_pages fuel session ps))"
    and "empty_page (fst (iter_pages fuel session ps) ! i)"
  shows "Suc i = length (fst (iter_pages fuel session ps))
         \<and> ending (snd (iter_pages fuel session ps)) = Return"
proof -
  let ?calls = "fst (iter_pages fuel session ps)"
  obtain new where new: "?calls = [] @ new" "\<forall>c \<in> set (butlast new). 0 < received c"
    unfolding iter_pages_def using iter_pages_loop_calls [of fuel session ps 0 0 "[]"] by blast
  obtain new' where new':
    "?calls = [] @ new'"
    "new' \<noteq> [] \<longrightarrow> empty_page (last new') \<longrightarrow> ending (snd (iter_pages fuel session ps)) = Return"
    unfolding iter_pages_def using iter_pages_loop_ends_on_empty [of fuel session ps 0 0 "[]"] by blast
  have last_i: "Suc i = length ?calls"
  proof (rule ccontr)
    assume "Suc i \<noteq> length ?calls"
    with assms(1) have "i < length (butlast ?calls)" by simp
    then have "?calls ! i \<in> set (butlast ?calls)"
      by (metis nth_butlast nth_mem)
    with new have "0 < received (?calls ! i)" by simp
    with assms(2) show False using received_pos_not_empty by blast
  qed
  then have ne: "?calls \<noteq> []" by auto
  have "last ?calls = ?calls ! (length ?calls - 1)" using ne by (rule last_conv_nth)
  with last_i have "last ?calls = ?calls ! i" by (metis diff_Suc_1)
  note ne this
  with new' assms(2) have "ending (snd (iter_pages fuel session ps)) = Return" by simp
  with last_i show ?thesis by simp
qed

theorem stops_at_first_empty_page_witness:
  "(3::nat) < length (fst (iter_pages 9 (odata_session five_records) params_A))
   \<and> empty_page (fst (iter_pages 9 (odata_session five_records) params_A) ! 3)
   \<and> Suc 3 = length (fst (iter_pages 9 (odata_session five_records) params_A))
   \<and> ending (snd (iter_pages 9 (odata_session five_records) params_A)) = Return"
proof -
  have a: "(3::nat) < length (fst (iter_pages 9 (odata_session five_records) params_A))"
    by code_simp
  have b: "empty_page (fst (iter_pages 9 (odata_session five_records) params_A) ! 3)"
    by code_simp
  from stops_at_first_empty_page [OF a b] a b show ?thesis by simp
qed

subsection \<open>The page size requested under a row cap\<close>

lemma length_running_total: "length (running_total k ns) = length ns"
  by (induction ns arbitrary: k) auto

lemma running_total_nth:
  "i < length ns \<Longrightarrow> running_total k ns ! i = k + int (sum_list (take i ns))"
proof (induction ns arbitrary: k i)
  case Nil
  then show ?case by simp
next
  case (Cons n ns)
  show ?case
  proof (cases i)
    case 0
    then show ?thesis by simp
  next
    case (Suc j)
    with Cons.prems have "j < length ns" by simp
    from Cons.IH [OF this, of "k + int n"] Suc show ?thesis by simp
  qed
qed

lemma iter_pages_loop_requests:
  "fetched = skip \<Longrightarrow>
   \<exists>new. fst (iter_pages_loop fuel session ps fetched skip calls) = calls @ new
        \<and> (\<forall>c \<in> set new. next_top ps (u_skip (fst c)) = Some (u_top (fst c)))"
proof (induction fuel arbitrary: fetched skip calls)
  case 0
  show ?case by simp
next
  case (Suc fuel)
  show ?case
  proof (cases "next_top ps fetched")
    case None
    then show ?thesis by simp
  next
    case (Some top')
    define url where "url = build_url (indicator ps) skip top' (select ps) (filters ps)"
    have req: "next_top ps (u_skip url) = Some (u_top url)"
      using Some Suc.prems by (simp add: url_def build_url_def)
    show ?thesis
    proof (cases "session calls url")
      case (Inl e)
      with Some req show ?thesis
        by (simp add: url_def [symmetric])
    next
      case (Inr resp)
      show ?thesis
      proof (cases "status_code resp = 200 \<and> rows_of resp \<noteq> []")
        case False
        with Some Inr req show ?thesis
          by (auto simp: url_def [symmetric] Let_def)
      next
        case True
        let ?c = "(url, Inr resp)"
        let ?k = "int (length (rows_of resp))"
        let ?rec = "iter_pages_loop fuel session ps (fetched + ?k) (skip + ?k) (calls @ [?c])"
        have "fetched + ?k = skip + ?k" using Suc.prems by simp
        from Suc.IH [OF this, of "calls @ [?c]"]
        obtain new where new:
          "fst ?rec = (calls @ [?c]) @ new"
          "\<forall>c \<in> set new. next_top ps (u_skip (fst c)) = Some (u_top (fst c))"
          by blast
        have "fst (iter_pages_loop (Suc fuel) session ps fetched skip calls) = calls @ (?c # new)"
          using Some Inr True new(1) by (simp add: url_def [symmetric] Let_def case_prod_beta)
        moreover have "\<forall>c \<in> set (?c # new). next_top ps (u_skip (fst c)) = Some (u_top (fst c))"
          using new(2) req by simp
        ultimately show ?thesis by blast
      qed
    qed
  qed
qed

lemma iter_pages_loop_within_cap:
  assumes "honours_top session" and "max_rows ps = Some cap"
  shows "fetched \<le> cap \<Longrightarrow>
     fetched + int (length (yielded (snd (iter_pages_loop fuel session ps fetched skip calls)))) \<le> cap"
proof (induction fuel arbitrary: fetched skip calls)
  case 0
  then show ?case by simp
next
  case (Suc fuel)
  show ?case
  proof (cases "next_top ps fetched")
    case None
    with Suc.prems show ?thesis by simp
  next
    case (Some top')
    define url where "url = build_url (indicator ps) skip top' (select ps) (filters ps)"
    have top_le: "top' \<le> cap - fetched"
      using Some assms(2) by (auto simp: next_top_def Let_def split: if_splits)
    have top_url: "u_top url = top'" by (simp add: url_def build_url_def)
    show ?thesis
    proof (cases "session calls url")
      case (Inl e)
      with Some Suc.prems show ?thesis
        by (simp add: url_def [symmetric])
    next
      case (Inr resp)
      show ?thesis
      proof (cases "status_code resp = 200 \<and> rows_of resp \<noteq> []")
        case False
        with Some Inr Suc.prems show ?thesis
          by (auto simp: url_def [symmetric] Let_def)
      next
        case True
        let ?c = "(url, Inr resp)"
        let ?k = "int (length (rows_of resp))"
        let ?rec = "iter_pages_loop fuel session ps (fetched + ?k) (skip + ?k) (calls @ [?c])"
        have "length (rows_of resp) \<le> nat (u_top url)"
          using assms(1) Inr True unfolding honours_top_def by blast
        moreover have "0 < length (rows_of resp)" using True by simp
        ultimately have "?k \<le> top'" using top_url by linarith
        with top_le have "fetched + ?k \<le> cap" by simp
        from Suc.IH [OF this, of "skip + ?k" "calls @ [?c]"]
        have "fetched + ?k + int (length (yielded (snd ?rec))) \<le> cap" .
        moreover have "snd (iter_pages_loop (Suc fuel) session ps fetched skip calls)
                         = yield_all (rows_of resp) (snd ?rec)"
          using Some Inr True by (simp add: url_def [symmetric] Let_def case_prod_beta)
        ultimately show ?thesis by (simp add: yielded_yield_all)
      qed
    qed
  qed
qed

lemma honours_top_odata_session: "honours_top (odata_session data)"
  by (simp add: honours_top_def odata_session_def rows_of_def)

text \<open>
  Claim C6. Under a row cap, the page size of every fetch call is the configured page
  size clamped to the headroom left, where the records fetched so far are those received
  from the calls before it: fetched plus requested never exceeds the cap, and it is the
  headroom exactly where the page size is larger. With a session that returns no more
  rows than requested, the records yielded never exceed the cap.
\<close>

theorem requested_size_clamped_to_cap:
  assumes "max_rows ps = Some cap"
    and "i < length (fst (iter_pages fuel session ps))"
  shows "(let calls = fst (iter_pages fuel session ps);
              fetched = int (sum_list (map received (take i calls)));
              requested = u_top (fst (calls ! i))
          in requested = min (page_size ps) (cap - fetched)
             \<and> fetched + requested \<le> cap
             \<and> (cap - fetched < page_size ps \<longrightarrow> requested = cap - fetched))
         \<and> (honours_top session \<and> 0 \<le> cap
              \<longrightarrow> int (length (yielded (snd (iter_pages fuel session ps)))) \<le> cap)"
proof -
  let ?calls = "fst (iter_pages fuel session ps)"
  let ?fetched = "int (sum_list (map received (take i ?calls)))"
  obtain new where new: "?calls = [] @ new" "cursors new = running_total 0 (map received new)"
    unfolding iter_pages_def using iter_pages_loop_calls [of fuel session ps 0 0 "[]"] by blast
  have "cursors ?calls ! i = 0 + int (sum_list (take i (map received ?calls)))"
    using new assms(2) running_total_nth [of i "map received ?calls" 0] by simp
  then have skip_i: "u_skip (fst (?calls ! i)) = ?fetched"
    using assms(2) by (simp add: cursors_def take_map)
  obtain new' where new':
    "?calls = [] @ new'" "\<forall>c \<in> set new'. next_top ps (u_skip (fst c)) = Some (u_top (fst c))"
    unfolding iter_pages_def using iter_pages_loop_requests [of 0 0 fuel session ps "[]"] by blast
  have "next_top ps (u_skip (fst (?calls ! i))) = Some (u_top (fst (?calls ! i)))"
    using new' assms(2) by simp
  with skip_i have "next_top ps ?fetched = Some (u_top (fst (?calls ! i)))" by simp
  with assms(1) have req: "u_top (fst (?calls ! i)) = min (page_size ps) (cap - ?fetched)"
    and pos: "0 < cap - ?fetched"
    by (auto simp: next_top_def Let_def split: if_splits)
  have within: "honours_top session \<and> 0 \<le> cap
      \<longrightarrow> int (length (yielded (snd (iter_pages fuel session ps)))) \<le> cap"
    unfolding iter_pages_def
    using iter_pages_loop_within_cap [of session ps cap 0 fuel 0 "[]"] assms(1) by auto
  from req pos within show ?thesis by (auto simp: Let_def)
qed

theorem requested_size_clamped_to_cap_witness:
  "max_rows params_B = Some 3
   \<and> (1::nat) < length (fst (iter_pages 4 (odata_session five_records) params_B))
   \<and> honours_top (odata_session five_records) \<and> (0::int) \<le> 3
   \<and> int (sum_list (map received (take 1 (fst (iter_pages 4 (odata_session five_records) params_B))))) = 2
   \<and> u_top (fst (fst (iter_pages 4 (odata_session five_records) params_B) ! 1)) = 1
   \<and> length (yielded (snd (iter_pages 4 (odata_session five_records) params_B))) = 3"
proof -
  have a: "max_rows params_B = Some 3" by (simp add: params_B_def)
  have b: "(1::nat) < length (fst (iter_pages 4 (odata_session five_records) params_B))"
    by code_simp
  have c: "int (sum_list (map received (take 1 (fst (iter_pages 4 (odata_session five_records) params_B))))) = 2"
    by code_simp
  have d: "length (yielded (snd (iter_pages 4 (odata_session five_records) params_B))) = 3"
    by code_simp
  have e: "page_size params_B = 2" by (simp add: params_B_def)
  from requested_size_clamped_to_cap [OF a b] a b c d e honours_top_odata_session [of five_records]
  show ?thesis by (simp add: Let_def)
qed

subsection \<open>The number of records produced\<close>

lemma take_take_drop: "j \<le> n \<Longrightarrow> take j xs @ take (n - j) (drop j xs) = take n xs"
proof -
  assume "j \<le> n"
  then have "take n xs = take (j + (n - j)) xs" by simp
  also have "\<dots> = take j xs @ take (n - j) (drop j xs)" by (rule take_add)
  finally show ?thesis by simp
qed

lemma yield_all_append: "yield_all (xs @ ys) s = yield_all xs (yield_all ys s)"
  by (induction xs) auto

lemma iter_pages_loop_odata:
  assumes "0 < page_size ps"
  shows "k \<le> length data \<Longrightarrow> length data - k < fuel \<Longrightarrow>
     snd (iter_pages_loop fuel (odata_session data) ps (int k) (int k) calls)
       = yield_all (take (row_limit ps (length data) - k) (drop k data)) Return"
proof (induction fuel arbitrary: k calls)
  case 0
  then show ?case by simp
next
  case (Suc fuel)
  let ?lim = "row_limit ps (length data)"
  show ?case
  proof (cases "next_top ps (int k)")
    case None
    then have "?lim \<le> k"
      by (auto simp: next_top_def row_limit_def Let_def split: option.splits if_splits)
    with None show ?thesis by simp
  next
    case (Some top')
    define url where "url = build_url (indicator ps) (int k) top' (select ps) (filters ps)"
    define rows where "rows = take (nat top') (drop k data)"
    have top_pos: "0 < top'" and top_lim: "k + nat top' \<le> ?lim \<or> max_rows ps = None"
      using Some assms
      by (auto simp: next_top_def row_limit_def Let_def split: option.splits if_splits)
    have resp: "odata_session data calls url
                  = Inr \<lparr>status_code = 200, resp_text = [], json_value = Some rows\<rparr>"
      by (simp add: odata_session_def url_def build_url_def rows_def)
    show ?thesis
    proof (cases "rows = []")
      case True
      with top_pos have "drop k data = []" by (auto simp: rows_def)
      with Some resp True show ?thesis
        by (simp add: url_def [symmetric] rows_of_def)
    next
      case False
      let ?j = "length rows"
      have j_pos: "0 < ?j" using False by simp
      have j_le: "k + ?j \<le> length data" using Suc.prems(1) by (simp add: rows_def)
      have fuel': "length data - (k + ?j) < fuel" using Suc.prems j_pos j_le by linarith
      have j_lim: "?j \<le> ?lim - k"
      proof -
        have "?j \<le> length data - k" by (simp add: rows_def)
        moreover have "?j \<le> nat top'" by (simp add: rows_def)
        ultimately show ?thesis using top_lim
          by (auto simp: row_limit_def split: option.splits)
      qed
      have rows_take: "rows = take ?j (drop k data)" by (simp add: rows_def min_def)
      from Suc.IH [OF j_le fuel', of "calls @ [(url, Inr \<lparr>status_code = 200, resp_text = [], json_value = Some rows\<rparr>)]"]
      have "snd (iter_pages_loop (Suc fuel) (odata_session data) ps (int k) (int k) calls)
              = yield_all rows (yield_all (take (?lim - (k + ?j)) (drop (k + ?j) data)) Return)"
        using Some resp False
        by (simp add: url_def [symmetric] rows_of_def Let_def case_prod_beta)
      also have "\<dots> = yield_all (rows @ take (?lim - (k + ?j)) (drop (k + ?j) data)) Return"
        by (simp add: yield_all_append)
      also have "rows @ take (?lim - (k + ?j)) (drop (k + ?j) data)
                   = take (?lim - k) (drop k data)"
      proof -
        have "take ?j (drop k data) @ take (?lim - k - ?j) (drop ?j (drop k data))
                = take (?lim - k) (drop k data)"
          using j_lim by (rule take_take_drop)
        with rows_take show ?thesis by (simp add: add.commute)
      qed
      finally show ?thesis .
    qed
  qed
qed


text \<open>
  Claim C1, amended. Against an API that holds \<open>data\<close> and serves the window asked for,
  with a page size above 0, the driver ends by returning and yields exactly the first
  \<open>min (length data) cap\<close> records of \<open>data\<close> when a cap \<open>cap \<ge> 0\<close> is set, none when
  the cap is negative, and all of \<open>data\<close> without a cap. The sequence is empty if and only
  if the cap is at most 0 or no record is available.
\<close>

theorem iter_pages_count:
  assumes "0 < page_size ps" and "length data < fuel"
  shows "ending (snd (iter_pages fuel (odata_session data) ps)) = Return
     \<and> yielded (snd (iter_pages fuel (odata_session data) ps))
         = take (row_limit ps (length data)) data
     \<and> length (yielded (snd (iter_pages fuel (odata_session data) ps)))
         = (case max_rows ps of
              None \<Rightarrow> length data
            | Some cap \<Rightarrow> min (length data) (nat cap))
     \<and> (yielded (snd (iter_pages fuel (odata_session data) ps)) = []
          \<longleftrightarrow> data = [] \<or> (\<exists>cap. max_rows ps = Some cap \<and> cap \<le> 0))"
proof -
  have "snd (iter_pages fuel (odata_session data) ps)
          = yield_all (take (row_limit ps (length data) - 0) (drop 0 data)) Return"
    unfolding iter_pages_def
    using iter_pages_loop_odata [OF assms(1), of 0 data fuel "[]"] assms(2) by simp
  then have s: "snd (iter_pages fuel (odata_session data) ps)
                  = yield_all (take (row_limit ps (length data)) data) Return"
    by simp
  have "take (row_limit ps (length data)) data = []
          \<longleftrightarrow> data = [] \<or> (\<exists>cap. max_rows ps = Some cap \<and> cap \<le> 0)"
    by (auto simp: row_limit_def split: option.splits)
  with s show ?thesis
    by (auto simp: yielded_yield_all ending_yield_all row_limit_def split: option.splits)
qed

theorem iter_pages_count_witness:
  "0 < page_size params_B \<and> length five_records < 6
   \<and> ending (snd (iter_pages 6 (odata_session five_records) params_B)) = Return
   \<and> yielded (snd (iter_pages 6 (odata_session five_records) params_B))
       = [[(''Id'', 1)], [(''Id'', 2)], [(''Id'', 3)]]
   \<and> length (yielded (snd (iter_pages 6 (odata_session five_records) params_B))) = 3"
proof -
  have a: "0 < page_size params_B" by (simp add: params_B_def)
  have b: "length five_records < 6" by (simp add: five_records_def)
  have c: "max_rows params_B = Some 3" by (simp add: params_B_def)
  have d: "take (row_limit params_B (length five_records)) five_records
             = [[(''Id'', 1)], [(''Id'', 2)], [(''Id'', 3)]]"
    by (simp add: row_limit_def c five_records_def)
  from iter_pages_count [OF a b] a b d show ?thesis by simp
qed

text \<open>
  The claim as written fails at two inputs: with a cap of 3 and no record available the
  sequence is empty although the cap is not 0; with a cap of -1 and five records
  available the driver yields no record, which is not \<open>min 5 (-1)\<close>.
\<close>

theorem iter_pages_empty_iff_cap_zero_counterexample:
  "\<not> (yielded (snd (iter_pages 6 (odata_session ([] :: nat pyrecord list)) params_B)) = []
        \<longleftrightarrow> max_rows params_B = Some 0)
   \<and> int (length (yielded (snd (iter_pages 6 (odata_session five_records)
                                   (params_B\<lparr>max_rows := Some (- 1)\<rparr>)))))
       \<noteq> min (int (length five_records)) (- 1)"
proof -
  have "yielded (snd (iter_pages 6 (odata_session ([] :: nat pyrecord list)) params_B)) = []"
    by code_simp
  moreover have "max_rows params_B \<noteq> Some 0" by (simp add: params_B_def)
  moreover have "yielded (snd (iter_pages 6 (odata_session five_records)
                                 (params_B\<lparr>max_rows := Some (- 1)\<rparr>))) = []"
    by (simp add: iter_pages_def eval_nat_numeral next_top_def)
  ultimately show ?thesis by simp
qed

section \<open>Properties of the Raw Sink\<close>

lemma jsonl_Cons: "jsonl rt (r # rs) = json_dumps rt r @ [CHR 0x0A] @ jsonl rt rs"
  by (simp add: jsonl_def)

lemma sink_result_Yield:
  "sink_result (Yield r s) n = sink_result s (Suc n)"
  by (cases "ending s") (simp_all add: sink_result_def)

lemma write_jsonl_loop_lines:
  assumes "\<forall>w s. \<not> fails rt w (FileWrite path s)"
  shows "files w path = Some c \<Longrightarrow> ending s \<noteq> Pending \<Longrightarrow>
     write_jsonl_loop rt path s n w
       = Some (sink_result s n, w\<lparr>files := (files w)(path \<mapsto> c @ jsonl rt (yielded s))\<rparr>)"
proof (induction s arbitrary: n w c)
  case (Yield r s)
  define w1 where "w1 = w\<lparr>files := (files w)(path \<mapsto> c @ json_dumps rt r)\<rparr>"
  define w2 where "w2 = w1\<lparr>files := (files w1)(path \<mapsto> c @ json_dumps rt r @ [CHR 0x0A])\<rparr>"
  have s1: "f_write rt w path (json_dumps rt r) = Inr w1"
    using assms Yield.prems(1) by (simp add: f_write_def w1_def)
  have s2: "f_write rt w1 path [CHR 0x0A] = Inr w2"
    using assms by (simp add: f_write_def w1_def w2_def)
  have f2: "files w2 path = Some (c @ json_dumps rt r @ [CHR 0x0A])"
    by (simp add: w2_def)
  have e: "ending s \<noteq> Pending" using Yield.prems(2) by simp
  have w2': "w2\<lparr>files := (files w2)(path \<mapsto> (c @ json_dumps rt r @ [CHR 0x0A]) @ jsonl rt (yielded s))\<rparr>
               = w\<lparr>files := (files w)(path \<mapsto> c @ jsonl rt (yielded (Yield r s)))\<rparr>"
    by (simp add: w2_def w1_def jsonl_Cons)
  have "write_jsonl_loop rt path (Yield r s) n w = write_jsonl_loop rt path s (Suc n) w2"
    using s1 s2 by simp
  also have "\<dots> = Some (sink_result s (Suc n),
      w2\<lparr>files := (files w2)(path \<mapsto> (c @ json_dumps rt r @ [CHR 0x0A]) @ jsonl rt (yielded s))\<rparr>)"
    by (rule Yield.IH [OF f2 e])
  also have "\<dots> = Some (sink_result (Yield r s) n,
      w\<lparr>files := (files w)(path \<mapsto> c @ jsonl rt (yielded (Yield r s)))\<rparr>)"
    by (simp only: w2' sink_result_Yield)
  finally show ?case .
next
  case Return
  then show ?case by (simp add: jsonl_def sink_result_def fun_upd_idem)
next
  case (Raise e)
  then show ?case by (simp add: jsonl_def sink_result_def fun_upd_idem)
next
  case Pending
  then show ?case by simp
qed

lemma write_jsonl_lines:
  assumes "\<forall>w s. \<not> fails rt w (FileWrite path s)" and "\<forall>w. \<not> fails rt w (FileOpen path)"
    and "ending s \<noteq> Pending"
  shows "write_jsonl rt path s w
       = Some (sink_result s 0, w\<lparr>files := (files w)(path \<mapsto> jsonl rt (yielded s))\<rparr>)"
proof -
  define w0 where "w0 = w\<lparr>files := (files w)(path \<mapsto> [])\<rparr>"
  have o: "open_w rt w path = Inr w0" using assms(2) by (simp add: open_w_def w0_def)
  have f: "files w0 path = Some []" by (simp add: w0_def)
  have "write_jsonl rt path s w = write_jsonl_loop rt path s 0 w0"
    using o by (simp add: write_jsonl_def)
  also have "\<dots> = Some (sink_result s 0, w0\<lparr>files := (files w0)(path \<mapsto> [] @ jsonl rt (yielded s))\<rparr>)"
    by (rule write_jsonl_loop_lines [OF assms(1) f assms(3)])
  also have "w0\<lparr>files := (files w0)(path \<mapsto> [] @ jsonl rt (yielded s))\<rparr>
               = w\<lparr>files := (files w)(path \<mapsto> jsonl rt (yielded s))\<rparr>"
    by (simp add: w0_def)
  finally show ?thesis .
qed

lemma iter_pages_second_page_fails:
  assumes "next_top ps 0 = Some top1"
    and "session [] (build_url (indicator ps) 0 top1 (select ps) (filters ps)) = Inr resp1"
    and "status_code resp1 = 200" and "rows_of resp1 \<noteq> []"
    and "next_top ps (int (length (rows_of resp1))) = Some top2"
    and "session [(build_url (indicator ps) 0 top1 (select ps) (filters ps), Inr resp1)]
           (build_url (indicator ps) (int (length (rows_of resp1))) top2 (select ps) (filters ps))
           = Inr resp2"
    and "status_code resp2 \<noteq> 200"
  shows "snd (iter_pages (Suc (Suc fuel)) session ps)
           = yield_all (rows_of resp1)
               (Raise (HTTPStatusError (status_code resp2) (take 500 (resp_text resp2))))"
  using assms by (simp add: iter_pages_def Let_def)


text \<open>
  Claim C4. When the first fetch returns a page of records with status 200 and the second
  fetch returns another status, the run of the Raw Sink over the driver's records aborts
  with the driver's error, which carries that status and the first 500 characters of the
  response text, and the output file then holds the lines of exactly the records of the
  first page (the file operations themselves succeeding).
\<close>

theorem http_error_on_second_page:
  assumes "next_top ps 0 = Some top1"
    and "session [] (build_url (indicator ps) 0 top1 (select ps) (filters ps)) = Inr resp1"
    and "status_code resp1 = 200" and "rows_of resp1 \<noteq> []"
    and "next_top ps (int (length (rows_of resp1))) = Some top2"
    and "session [(build_url (indicator ps) 0 top1 (select ps) (filters ps), Inr resp1)]
           (build_url (indicator ps) (int (length (rows_of resp1))) top2 (select ps) (filters ps))
           = Inr resp2"
    and "status_code resp2 \<noteq> 200"
    and "\<forall>w s. \<not> fails rt w (FileWrite path s)" and "\<forall>w. \<not> fails rt w (FileOpen path)"
  shows "write_jsonl rt path (snd (iter_pages (Suc (Suc fuel)) session ps)) w
           = Some (Inl (HTTPStatusError (status_code resp2) (take 500 (resp_text resp2))),
                   w\<lparr>files := (files w)(path \<mapsto> jsonl rt (rows_of resp1))\<rparr>)"
proof -
  let ?e = "HTTPStatusError (status_code resp2) (take 500 (resp_text resp2))"
  let ?s = "snd (iter_pages (Suc (Suc fuel)) session ps)"
  have s: "?s = yield_all (rows_of resp1) (Raise ?e)"
    by (rule iter_pages_second_page_fails [OF assms(1-7)])
  then have e: "ending ?s = Raise ?e" and y: "yielded ?s = rows_of resp1"
    by (simp_all add: ending_yield_all yielded_yield_all)
  from e have "ending ?s \<noteq> Pending" by simp
  from write_jsonl_lines [OF assms(8,9) this, of w] e y
  show ?thesis by (simp add: sink_result_def)
qed

theorem http_error_on_second_page_witness:
  "next_top params_A 0 = Some 2
   \<and> failing_session [] (build_url ''X'' 0 2 None None)
       = Inr \<lparr>status_code = 200, resp_text = [], json_value = Some [[(''Id'', 1)], [(''Id'', 2)]]\<rparr>
   \<and> failing_session
         [(build_url ''X'' 0 2 None None,
           Inr \<lparr>status_code = 200, resp_text = [], json_value = Some [[(''Id'', 1)], [(''Id'', 2)]]\<rparr>)]
         (build_url ''X'' 2 2 None None)
       = Inr \<lparr>status_code = 500, resp_text = ''Internal Server Error'', json_value = None\<rparr>
   \<and> (\<forall>w s. \<not> fails plain_runtime w (FileWrite ''out'' s))
   \<and> (\<forall>w. \<not> fails plain_runtime w (FileOpen ''out''))
   \<and> write_jsonl plain_runtime ''out'' (snd (iter_pages (Suc (Suc 2)) failing_session params_A))
         empty_world
       = Some (Inl (HTTPStatusError 500 ''Internal Server Error''),
               empty_world\<lparr>files := (files empty_world)(''out'' \<mapsto>
                  [CHR ''1'', CHR 0x0A, CHR ''2'', CHR 0x0A])\<rparr>)"
proof -
  let ?r1 = "\<lparr>status_code = 200, resp_text = [],
               json_value = Some [[(''Id'', 1::nat)], [(''Id'', 2)]]\<rparr>"
  let ?r2 = "\<lparr>status_code = 500, resp_text = ''Internal Server Error'',
               json_value = (None :: nat pyrecord list option)\<rparr>"
  have ps: "indicator params_A = ''X''" "select params_A = None" "filters params_A = None"
    by (simp_all add: params_A_def)
  have a1: "next_top params_A 0 = Some 2" by (simp add: next_top_def params_A_def)
  have a2: "failing_session [] (build_url ''X'' 0 2 None None) = Inr ?r1"
    by (simp add: failing_session_def odata_session_def build_url_def five_records_def)
  have a3: "status_code ?r1 = 200" and a4: "rows_of ?r1 \<noteq> []" and len: "length (rows_of ?r1) = 2"
    by (simp_all add: rows_of_def)
  have a5: "next_top params_A (int (length (rows_of ?r1))) = Some 2"
    by (simp add: next_top_def params_A_def)
  have a6: "failing_session [(build_url ''X'' 0 2 None None, Inr ?r1)]
              (build_url ''X'' (int (length (rows_of ?r1))) 2 None None) = Inr ?r2"
    by (simp add: failing_session_def)
  have a7: "status_code ?r2 \<noteq> 200" by simp
  have a8: "\<forall>w s. \<not> fails plain_runtime w (FileWrite ''out'' s)"
    and a9: "\<forall>w. \<not> fails plain_runtime w (FileOpen ''out'')"
    by (simp_all add: plain_runtime_def)
  have lines: "jsonl plain_runtime (rows_of ?r1) = [CHR ''1'', CHR 0x0A, CHR ''2'', CHR 0x0A]"
    by code_simp
  have "write_jsonl plain_runtime ''out'' (snd (iter_pages (Suc (Suc 2)) failing_session params_A))
          empty_world
        = Some (Inl (HTTPStatusError (status_code ?r2) (take 500 (resp_text ?r2))),
                empty_world\<lparr>files := (files empty_world)(''out'' \<mapsto> jsonl plain_runtime (rows_of ?r1))\<rparr>)"
    by (rule http_error_on_second_page
          [of params_A 2 failing_session ?r1 2 ?r2 plain_runtime "''out''" 2 empty_world,
           unfolded ps, OF a1 a2 a3 a4 a5 a6 a7 a8 a9])
  with a1 a2 a6 a8 a9 lines len show ?thesis by simp
qed

section \<open>Properties of the Warehouse Sink\<close>

subsection \<open>Configuration and connection come first\<close>

lemma read_env_missing:
  "snd (read_env env m) = filter (\<lambda>k. getenv_truthy env k = None) (map fst m)"
  by (induction m) (auto split: prod.splits option.splits)

lemma getenv_truthy_None: "getenv_truthy env k = None \<longleftrightarrow> env k = None \<or> env k = Some []"
  by (auto simp: getenv_truthy_def truthy_str_def split: option.splits)

lemma get_snowflake_config_missing:
  "(\<exists>e. get_snowflake_config env = Inl e)
     \<longleftrightarrow> (\<exists>k \<in> set (map fst env_map). env k = None \<or> env k = Some [])"
proof -
  have "(\<exists>e. get_snowflake_config env = Inl e) \<longleftrightarrow> snd (read_env env env_map) \<noteq> []"
    by (auto simp: get_snowflake_config_def Let_def split: prod.splits)
  also have "\<dots> \<longleftrightarrow> (\<exists>k \<in> set (map fst env_map). getenv_truthy env k = None)"
    unfolding read_env_missing by (simp add: filter_empty_conv)
  finally show ?thesis by (simp only: getenv_truthy_None)
qed

text \<open>
  Claim C9. The dual sink reads the warehouse configuration and connects before it opens
  the output file: when a required variable is unset or empty, or the connection fails,
  it raises and leaves the world as it was, whatever the record sequence is: no file is
  created or truncated, and a file already at the path keeps its content.
\<close>

theorem no_file_touched_before_connection:
  assumes "(\<exists>k \<in> set (map fst env_map). environ w k = None \<or> environ w k = Some [])
           \<or> (\<exists>config. get_snowflake_config (environ w) = Inr config
                 \<and> fails rt w (Wh (Connect config)))"
  shows "\<exists>e. write_jsonl_and_snowflake rt path rows table_name ind ingest_date batch_size w
                = Some (Inl e, w)"
proof -
  from assms get_snowflake_config_missing [of "environ w"]
  have "(\<exists>e. get_snowflake_config (environ w) = Inl e)
        \<or> (\<exists>config. get_snowflake_config (environ w) = Inr config
              \<and> fails rt w (Wh (Connect config)))"
    by blast
  then show ?thesis
    by (auto simp: write_jsonl_and_snowflake_def connect_to_snowflake_def wh_call_def)
qed

theorem no_file_touched_before_connection_witness:
  "(\<exists>k \<in> set (map fst env_map). environ stale_world k = None \<or> environ stale_world k = Some [])
   \<and> (\<exists>e. write_jsonl_and_snowflake plain_runtime ''out''
              (snd (iter_pages 4 (odata_session five_records) params_A))
              ''t'' ''X'' ''2026-01-01'' 2 stale_world
            = Some (Inl e, stale_world))
   \<and> files stale_world ''out'' = Some ''old''"
proof -
  have a: "\<exists>k \<in> set (map fst env_map). environ stale_world k = None \<or> environ stale_world k = Some []"
    by (intro bexI [of _ "''SNOWFLAKE_ACCOUNT''"]) (simp_all add: stale_world_def env_map_def)
  have b: "files stale_world ''out'' = Some ''old''" by (simp add: stale_world_def)
  from no_file_touched_before_connection [of stale_world, OF disjI1, OF a] a b
  show ?thesis by blast
qed

subsection \<open>The calls of the record loop\<close>

lemma f_write_keeps_warehouse:
  "f_write rt w path x = Inr w1 \<Longrightarrow> warehouse w1 = warehouse w"
  by (auto simp: f_write_def split: if_splits)

lemma wh_call_appends:
  "wh_call rt w ev = Inr w1 \<Longrightarrow> warehouse w1 = warehouse w @ [ev]"
  by (auto simp: wh_call_def split: if_splits)

lemma snowflake_loop_log:
  "snowflake_loop rt path t ind d b s n batch w = Some (res, w') \<Longrightarrow>
   \<exists>bs rest. warehouse w' = warehouse w @ map (ExecuteMany t) bs
     \<and> concat bs @ rest = batch @ map (wh_row_of rt ind d) (yielded s)
     \<and> (\<forall>n' batch'. res = Inr (n', batch')
           \<longrightarrow> rest = batch' \<and> ending s = Return \<and> n' = n + length (yielded s))
     \<and> (1 \<le> b \<longrightarrow> int (length batch) < b
           \<longrightarrow> (\<forall>x \<in> set bs. int (length x) = b)
               \<and> (\<forall>n' batch'. res = Inr (n', batch') \<longrightarrow> int (length batch') < b))"
proof (induction s arbitrary: n batch w)
  case (Yield row s)
  let ?goal = "\<exists>bs rest. warehouse w' = warehouse w @ map (ExecuteMany t) bs
     \<and> concat bs @ rest = batch @ map (wh_row_of rt ind d) (yielded (Yield row s))
     \<and> (\<forall>n' batch'. res = Inr (n', batch')
           \<longrightarrow> rest = batch' \<and> ending (Yield row s) = Return
               \<and> n' = n + length (yielded (Yield row s)))
     \<and> (1 \<le> b \<longrightarrow> int (length batch) < b
           \<longrightarrow> (\<forall>x \<in> set bs. int (length x) = b)
               \<and> (\<forall>n' batch'. res = Inr (n', batch') \<longrightarrow> int (length batch') < b))"
  let ?batch = "batch @ [wh_row_of rt ind d row]"
  have stop: ?goal if "warehouse w' = warehouse w" and "\<exists>e. res = Inl e"
  proof -
    have "warehouse w' = warehouse w @ map (ExecuteMany t) []" using that(1) by simp
    moreover have "concat [] @ (batch @ map (wh_row_of rt ind d) (yielded (Yield row s)))
                     = batch @ map (wh_row_of rt ind d) (yielded (Yield row s))"
      by simp
    ultimately show ?thesis using that(2) by (metis Inl_Inr_False empty_iff list.set(1))
  qed
  show ?case
  proof (cases "f_write rt w path (json_dumps rt row)")
    case (Inl e)
    with Yield.prems have "res = Inl e" "w' = w" by (simp_all add: Let_def)
    then show ?thesis using stop by simp
  next
    case w1: (Inr w1)
    show ?thesis
    proof (cases "f_write rt w1 path [CHR 0x0A]")
      case (Inl e)
      with Yield.prems w1 have "res = Inl e" "w' = w1" by (simp_all add: Let_def)
      then show ?thesis using stop f_write_keeps_warehouse [OF w1] by simp
    next
      case w2: (Inr w2)
      have wh2: "warehouse w2 = warehouse w"
        using f_write_keeps_warehouse [OF w1] f_write_keeps_warehouse [OF w2] by simp
      show ?thesis
      proof (cases "b \<le> int (length ?batch)")
        case full: True
        show ?thesis
        proof (cases "wh_call rt w2 (ExecuteMany t ?batch)")
          case (Inl e)
          with Yield.prems w1 w2 full have "res = Inl e" "w' = w2"
            by (simp_all add: Let_def wh_row_of_def)
          then show ?thesis using stop wh2 by simp
        next
          case w3: (Inr w3)
          have wh3: "warehouse w3 = warehouse w @ [ExecuteMany t ?batch]"
            using wh_call_appends [OF w3] wh2 by simp
          have "snowflake_loop rt path t ind d b s (n + 1) [] w3 = Some (res, w')"
            using Yield.prems w1 w2 full w3 by (simp add: Let_def wh_row_of_def)
          from Yield.IH [OF this] obtain bs rest where ih:
            "warehouse w' = warehouse w3 @ map (ExecuteMany t) bs"
            "concat bs @ rest = [] @ map (wh_row_of rt ind d) (yielded s)"
            "\<forall>n' batch'. res = Inr (n', batch')
               \<longrightarrow> rest = batch' \<and> ending s = Return \<and> n' = n + 1 + length (yielded s)"
            "1 \<le> b \<longrightarrow> int (length ([] :: 'a wh_row list)) < b
               \<longrightarrow> (\<forall>x \<in> set bs. int (length x) = b)
                   \<and> (\<forall>n' batch'. res = Inr (n', batch') \<longrightarrow> int (length batch') < b)"
            by blast
          have a: "warehouse w' = warehouse w @ map (ExecuteMany t) (?batch # bs)"
            using ih(1) wh3 by simp
          have c: "concat (?batch # bs) @ rest
                     = batch @ map (wh_row_of rt ind d) (yielded (Yield row s))"
            using ih(2) by simp
          have r: "\<forall>n' batch'. res = Inr (n', batch')
               \<longrightarrow> rest = batch' \<and> ending (Yield row s) = Return
                   \<and> n' = n + length (yielded (Yield row s))"
            using ih(3) by simp
          have z: "1 \<le> b \<longrightarrow> int (length batch) < b
               \<longrightarrow> (\<forall>x \<in> set (?batch # bs). int (length x) = b)
                   \<and> (\<forall>n' batch'. res = Inr (n', batch') \<longrightarrow> int (length batch') < b)"
            using ih(4) full by auto
          from a c r z show ?thesis by blast
        qed
      next
        case part: False
        have "snowflake_loop rt path t ind d b s (n + 1) ?batch w2 = Some (res, w')"
          using Yield.prems w1 w2 part by (simp add: Let_def wh_row_of_def)
        from Yield.IH [OF this] obtain bs rest where ih:
          "warehouse w' = warehouse w2 @ map (ExecuteMany t) bs"
          "concat bs @ rest = ?batch @ map (wh_row_of rt ind d) (yielded s)"
          "\<forall>n' batch'. res = Inr (n', batch')
             \<longrightarrow> rest = batch' \<and> ending s = Return \<and> n' = n + 1 + length (yielded s)"
          "1 \<le> b \<longrightarrow> int (length ?batch) < b
             \<longrightarrow> (\<forall>x \<in> set bs. int (length x) = b)
                 \<and> (\<forall>n' batch'. res = Inr (n', batch') \<longrightarrow> int (length batch') < b)"
          by blast
        have a: "warehouse w' = warehouse w @ map (ExecuteMany t) bs"
          using ih(1) wh2 by simp
        have c: "concat bs @ rest = batch @ map (wh_row_of rt ind d) (yielded (Yield row s))"
          using ih(2) by simp
        have r: "\<forall>n' batch'. res = Inr (n', batch')
             \<longrightarrow> rest = batch' \<and> ending (Yield row s) = Return
                 \<and> n' = n + length (yielded (Yield row s))"
          using ih(3) by simp
        have z: "1 \<le> b \<longrightarrow> int (length batch) < b
             \<longrightarrow> (\<forall>x \<in> set bs. int (length x) = b)
                 \<and> (\<forall>n' batch'. res = Inr (n', batch') \<longrightarrow> int (length batch') < b)"
          using ih(4) part by auto
        from a c r z show ?thesis by blast
      qed
    qed
  qed
next
  case Return
  then have "res = Inr (n, batch)" "w' = w" by simp_all
  then have "warehouse w' = warehouse w @ map (ExecuteMany t) []"
    and "concat [] @ batch = batch @ map (wh_row_of rt ind d) (yielded Return)"
    by simp_all
  with \<open>res = Inr (n, batch)\<close> show ?case
    by (intro exI [of _ "[]"] exI [of _ batch]) simp
next
  case (Raise e)
  then have "res = Inl e" "w' = w" by simp_all
  then show ?case
    by (intro exI [of _ "[]"] exI [of _ batch]) simp
next
  case Pending
  then show ?case by simp
qed



lemma open_w_keeps_warehouse:
  "open_w rt w path = Inr w1 \<Longrightarrow> warehouse w1 = warehouse w"
  by (auto simp: open_w_def split: if_splits)


lemma snowflake_try_log:
  assumes run: "snowflake_try rt path s t ind d b w = Some (res, w')"
  shows "\<exists>pre bs rest post.
       warehouse w' = warehouse w @ pre @ map (ExecuteMany t) bs @ post
     \<and> concat bs @ rest = map (wh_row_of rt ind d) (yielded s)
     \<and> (pre = [] \<or> pre = [CreateTable t])
     \<and> ((\<exists>e. res = Inl e) \<longrightarrow> post = [])
     \<and> (\<forall>n. res = Inr n
           \<longrightarrow> pre = [CreateTable t] \<and> post = [Commit] \<and> rest = [] \<and> ending s = Return
               \<and> n = length (yielded s)
               \<and> (1 \<le> b \<longrightarrow> (\<forall>x \<in> set (butlast bs). int (length x) = b)
                              \<and> (\<forall>x \<in> set bs. x \<noteq> [] \<and> int (length x) \<le> b)))"
  (is "\<exists>pre bs rest post. ?P pre bs rest post")
proof (cases "ensure_snowflake_table rt w t")
  case (Inl e)
  with run have "res = Inl e" "w' = w" by (simp_all add: snowflake_try_def)
  then have "?P [] [] (map (wh_row_of rt ind d) (yielded s)) []" by simp
  then show ?thesis by blast
next
  case w1: (Inr w1)
  have wh1: "warehouse w1 = warehouse w @ [CreateTable t]"
    using w1 wh_call_appends unfolding ensure_snowflake_table_def by blast
  show ?thesis
  proof (cases "open_w rt w1 path")
    case (Inl e)
    with run w1 have "res = Inl e" "w' = w1" by (simp_all add: snowflake_try_def)
    with wh1 have "?P [CreateTable t] [] (map (wh_row_of rt ind d) (yielded s)) []" by simp
    then show ?thesis by blast
  next
    case w2: (Inr w2)
    have wh2: "warehouse w2 = warehouse w @ [CreateTable t]"
      using open_w_keeps_warehouse [OF w2] wh1 by simp
    from run w1 w2 obtain lres w3 where
      loop: "snowflake_loop rt path t ind d b s 0 [] w2 = Some (lres, w3)"
      by (auto simp: snowflake_try_def split: option.splits)
    from snowflake_loop_log [OF loop] obtain bs rest where lg:
      "warehouse w3 = warehouse w2 @ map (ExecuteMany t) bs"
      "concat bs @ rest = [] @ map (wh_row_of rt ind d) (yielded s)"
      "\<forall>n' batch'. lres = Inr (n', batch')
         \<longrightarrow> rest = batch' \<and> ending s = Return \<and> n' = 0 + length (yielded s)"
      "1 \<le> b \<longrightarrow> int (length ([] :: 'a wh_row list)) < b
         \<longrightarrow> (\<forall>x \<in> set bs. int (length x) = b)
             \<and> (\<forall>n' batch'. lres = Inr (n', batch') \<longrightarrow> int (length batch') < b)"
      by blast
    have wh3: "warehouse w3 = warehouse w @ [CreateTable t] @ map (ExecuteMany t) bs @ []"
      using lg(1) wh2 by simp
    show ?thesis
    proof (cases lres)
      case (Inl e)
      with run w1 w2 loop have "res = Inl e" "w' = w3" by (simp_all add: snowflake_try_def)
      with wh3 lg(2) have "?P [CreateTable t] bs rest []" by simp
      then show ?thesis by blast
    next
      case (Inr nb)
      obtain n batch where nb: "nb = (n, batch)" by (cases nb)
      with Inr lg(3) have fin: "rest = batch" "ending s = Return" "n = length (yielded s)"
        by simp_all
      have small: "1 \<le> b \<longrightarrow> (\<forall>x \<in> set bs. int (length x) = b) \<and> int (length batch) < b"
        using lg(4) Inr nb by simp
      define all where "all = (if batch \<noteq> [] then bs @ [batch] else bs)"
      have call: "concat all @ [] = map (wh_row_of rt ind d) (yielded s)"
        using lg(2) fin(1) by (auto simp: all_def)
      have shape: "1 \<le> b \<longrightarrow> (\<forall>x \<in> set (butlast all). int (length x) = b)
                              \<and> (\<forall>x \<in> set all. x \<noteq> [] \<and> int (length x) \<le> b)"
      proof
        assume b1: "1 \<le> b"
        with small have f: "\<forall>x \<in> set bs. int (length x) = b" and l: "int (length batch) < b"
          by simp_all
        from f b1 have ne: "\<forall>x \<in> set bs. x \<noteq> []" by auto
        have "\<forall>x \<in> set (butlast all). int (length x) = b"
          using f by (auto simp: all_def butlast_append dest: in_set_butlastD)
        moreover have "\<forall>x \<in> set all. x \<noteq> [] \<and> int (length x) \<le> b"
          using f l ne by (auto simp: all_def)
        ultimately show "(\<forall>x \<in> set (butlast all). int (length x) = b)
                         \<and> (\<forall>x \<in> set all. x \<noteq> [] \<and> int (length x) \<le> b)" by simp
      qed
      show ?thesis
      proof (cases "if batch \<noteq> [] then wh_call rt w3 (ExecuteMany t batch) else Inr w3")
        case (Inl e)
        with run w1 w2 loop Inr nb have "res = Inl e" "w' = w3"
          by (simp_all add: snowflake_try_def)
        with wh3 lg(2) have "?P [CreateTable t] bs rest []" by simp
        then show ?thesis by blast
      next
        case w4: (Inr w4)
        have wh4: "warehouse w4 = warehouse w @ [CreateTable t] @ map (ExecuteMany t) all @ []"
        proof (cases "batch = []")
          case True
          with w4 have "w4 = w3" by simp
          with wh3 True show ?thesis by (simp add: all_def)
        next
          case False
          with w4 have "wh_call rt w3 (ExecuteMany t batch) = Inr w4" by simp
          from wh_call_appends [OF this] wh3 False show ?thesis by (simp add: all_def)
        qed
        show ?thesis
        proof (cases "wh_call rt w4 Commit")
          case (Inl e)
          with run w1 w2 loop Inr nb w4 have "res = Inl e" "w' = w4"
            by (simp_all add: snowflake_try_def)
          with wh4 call have "?P [CreateTable t] all [] []" by simp
          then show ?thesis by blast
        next
          case w5: (Inr w5)
          with run w1 w2 loop Inr nb w4 have r: "res = Inr n" "w' = w5"
            by (simp_all add: snowflake_try_def)
          have "warehouse w5 = warehouse w @ [CreateTable t] @ map (ExecuteMany t) all @ [Commit]"
            using wh_call_appends [OF w5] wh4 by simp
          with r call fin shape have "?P [CreateTable t] all [] [Commit]" by simp
          then show ?thesis by blast
        qed
      qed
    qed
  qed
qed

subsection \<open>The calls of a whole run\<close>

lemma insert_batches_append:
  "insert_batches (xs @ ys) = insert_batches xs @ insert_batches ys"
  by (induction xs rule: insert_batches.induct) auto

lemma insert_batches_map: "insert_batches (map (ExecuteMany t) bs) = bs"
  by (induction bs) auto

text \<open>
  The log of a run that connected: the connection, the calls of the \<open>try\<close> block, and
  the close of the \<open>finally\<close> clause.
\<close>

lemma write_jsonl_and_snowflake_log:
  assumes run: "write_jsonl_and_snowflake rt path s t ind d b w = Some (res, w')"
    and fresh: "warehouse w = []"
  shows "(warehouse w' = [] \<and> (\<exists>e. res = Inl e))
     \<or> (\<exists>config pre bs rest post.
           warehouse w' = [Connect config] @ pre @ map (ExecuteMany t) bs @ post @ [Close]
         \<and> get_snowflake_config (environ w) = Inr config
         \<and> concat bs @ rest = map (wh_row_of rt ind d) (yielded s)
         \<and> (pre = [] \<or> pre = [CreateTable t])
         \<and> ((\<exists>e. res = Inl e) \<longrightarrow> post = [])
         \<and> (\<forall>n. res = Inr n
               \<longrightarrow> pre = [CreateTable t] \<and> post = [Commit] \<and> rest = [] \<and> ending s = Return
                   \<and> n = length (yielded s)
                   \<and> (1 \<le> b \<longrightarrow> (\<forall>x \<in> set (butlast bs). int (length x) = b)
                                  \<and> (\<forall>x \<in> set bs. x \<noteq> [] \<and> int (length x) \<le> b))))"
  (is "?A \<or> (\<exists>config pre bs rest post. ?Q config pre bs rest post)")
proof (cases "get_snowflake_config (environ w)")
  case (Inl e)
  with run have "res = Inl e" "w' = w" by (simp_all add: write_jsonl_and_snowflake_def)
  with fresh have ?A by simp
  then show ?thesis by (rule disjI1)
next
  case cfg: (Inr config)
  show ?thesis
  proof (cases "connect_to_snowflake rt w config")
    case (Inl e)
    with run cfg have "res = Inl e" "w' = w" by (simp_all add: write_jsonl_and_snowflake_def)
    with fresh have ?A by simp
    then show ?thesis by (rule disjI1)
  next
    case w0: (Inr w0)
    have wh0: "warehouse w0 = [Connect config]"
      using w0 fresh by (auto simp: connect_to_snowflake_def wh_call_def split: if_splits)
    from run cfg w0 obtain w1 where
      body: "snowflake_try rt path s t ind d b w0 = Some (res, w1)" and w': "w' = conn_close w1"
      by (auto simp: write_jsonl_and_snowflake_def split: option.splits)
    from snowflake_try_log [OF body] obtain pre bs rest post where lg:
      "warehouse w1 = warehouse w0 @ pre @ map (ExecuteMany t) bs @ post"
      "concat bs @ rest = map (wh_row_of rt ind d) (yielded s)"
      "pre = [] \<or> pre = [CreateTable t]"
      "(\<exists>e. res = Inl e) \<longrightarrow> post = []"
      "\<forall>n. res = Inr n
         \<longrightarrow> pre = [CreateTable t] \<and> post = [Commit] \<and> rest = [] \<and> ending s = Return
             \<and> n = length (yielded s)
             \<and> (1 \<le> b \<longrightarrow> (\<forall>x \<in> set (butlast bs). int (length x) = b)
                            \<and> (\<forall>x \<in> set bs. x \<noteq> [] \<and> int (length x) \<le> b))"
      by (elim exE conjE) (rule that)
    have "warehouse w' = [Connect config] @ pre @ map (ExecuteMany t) bs @ post @ [Close]"
      using lg(1) wh0 w' by (simp add: conn_close_def)
    with cfg lg(2-5) have "?Q config pre bs rest post" by simp
    then have "\<exists>config pre bs rest post. ?Q config pre bs rest post" by (intro exI)
    then show ?thesis by (rule disjI2)
  qed
qed


subsection \<open>The insert calls of a run without faults\<close>

lemma concat_uniform: "\<forall>x \<in> set xs. length x = b \<Longrightarrow> length (concat xs) = length xs * b"
  by (induction xs) auto

lemma batch_count:
  assumes "0 < b" and "\<forall>x \<in> set (butlast bs). length x = b"
    and "\<forall>x \<in> set bs. x \<noteq> [] \<and> length x \<le> b"
  shows "length bs = (length (concat bs) + b - 1) div b"
proof (cases bs rule: rev_cases)
  case Nil
  with assms(1) show ?thesis by simp
next
  case (snoc ys y)
  with assms(2) have "length (concat ys) = length ys * b" by (simp add: concat_uniform)
  moreover from snoc assms(3) have l: "0 < length y" "length y \<le> b" by auto
  moreover from l(1) obtain m where m: "length y = Suc m" by (cases "length y") auto
  ultimately have "length (concat bs) + b - 1 = (length y - 1) + (length ys + 1) * b"
    using snoc by (simp add: algebra_simps)
  moreover have "((length y - 1) + (length ys + 1) * b) div b = length ys + 1"
  proof -
    have "b \<noteq> 0" using assms(1) by simp
    then have "((length y - 1) + (length ys + 1) * b) div b
                 = (length ys + 1) + (length y - 1) div b"
      by (rule div_mult_self1)
    moreover have "length y - 1 < b" using l by arith
    ultimately show ?thesis by simp
  qed
  ultimately show ?thesis using snoc by simp
qed

lemma snowflake_loop_no_faults:
  assumes "no_faults rt"
  shows "ending s = Return \<Longrightarrow>
     \<exists>r w'. snowflake_loop rt path t ind d b s n batch w = Some (Inr r, w')"
proof (induction s arbitrary: n batch w)
  case (Yield row s)
  have nf: "\<not> fails rt w op" for w op using assms by (simp add: no_faults_def)
  from Yield.prems have e: "ending s = Return" by simp
  show ?case
    using Yield.IH [OF e] by (simp add: Let_def f_write_def wh_call_def nf)
qed simp_all

lemma write_jsonl_and_snowflake_no_faults:
  assumes "no_faults rt" and "get_snowflake_config (environ w) = Inr config"
    and "ending s = Return"
  shows "\<exists>n w'. write_jsonl_and_snowflake rt path s t ind d b w = Some (Inr n, w')"
proof -
  have nf: "\<not> fails rt w op" for w op using assms(1) by (simp add: no_faults_def)
  define w2 where "w2 = w\<lparr>warehouse := warehouse w @ [Connect config]\<rparr>
                          \<lparr>warehouse := warehouse w @ [Connect config] @ [CreateTable t]\<rparr>
                          \<lparr>files := (files w)(path \<mapsto> [])\<rparr>"
  obtain r w3 where loop: "snowflake_loop rt path t ind d b s 0 [] w2 = Some (Inr r, w3)"
    using snowflake_loop_no_faults [OF assms(1,3)] by blast
  obtain n batch where r: "r = (n, batch)" by (cases r)
  have "snowflake_try rt path s t ind d b (w\<lparr>warehouse := warehouse w @ [Connect config]\<rparr>)
          = Some (Inr n, (if batch \<noteq> [] then w3\<lparr>warehouse := warehouse w3 @ [ExecuteMany t batch]\<rparr> else w3)
                \<lparr>warehouse := warehouse (if batch \<noteq> [] then w3\<lparr>warehouse := warehouse w3 @ [ExecuteMany t batch]\<rparr> else w3) @ [Commit]\<rparr>)"
    using loop r
    by (simp add: snowflake_try_def ensure_snowflake_table_def open_w_def wh_call_def nf w2_def)
  then show ?thesis
    using assms(2)
    by (simp add: write_jsonl_and_snowflake_def connect_to_snowflake_def wh_call_def nf)
qed


text \<open>
  Claim C2. With a batch size of at least 1, a run of the dual sink in which nothing
  fails, over a sequence of \<open>N\<close> records that ends by returning, returns \<open>N\<close> and
  issues exactly \<open>ceil (N / batch_size)\<close> insert calls: every call but the last holds
  exactly \<open>batch_size\<close> rows, no call is empty, none holds more, and together the calls
  hold the rows of the \<open>N\<close> records in order (the partial last batch included).
\<close>

theorem insert_calls_per_batch:
  assumes "1 \<le> batch_size" and "no_faults rt"
    and "get_snowflake_config (environ w) = Inr config"
    and "ending s = Return" and "warehouse w = []"
  shows "\<exists>w'. write_jsonl_and_snowflake rt path s t ind d batch_size w
                 = Some (Inr (length (yielded s)), w')
     \<and> length (insert_batches (warehouse w'))
         = (length (yielded s) + nat batch_size - 1) div nat batch_size
     \<and> (\<forall>x \<in> set (butlast (insert_batches (warehouse w'))). length x = nat batch_size)
     \<and> (\<forall>x \<in> set (insert_batches (warehouse w')). x \<noteq> [] \<and> length x \<le> nat batch_size)
     \<and> concat (insert_batches (warehouse w')) = map (wh_row_of rt ind d) (yielded s)"
proof -
  from write_jsonl_and_snowflake_no_faults [OF assms(2,3,4)]
  obtain n w' where run: "write_jsonl_and_snowflake rt path s t ind d batch_size w = Some (Inr n, w')"
    by blast
  from write_jsonl_and_snowflake_log [OF run assms(5)]
  obtain cfg pre bs rest post where lg:
    "warehouse w' = [Connect cfg] @ pre @ map (ExecuteMany t) bs @ post @ [Close]"
    "concat bs @ rest = map (wh_row_of rt ind d) (yielded s)"
    "pre = [CreateTable t]" "post = [Commit]" "rest = []" "n = length (yielded s)"
    "\<forall>x \<in> set (butlast bs). int (length x) = batch_size"
    "\<forall>x \<in> set bs. x \<noteq> [] \<and> int (length x) \<le> batch_size"
    using assms(1) by auto
  have ib: "insert_batches (warehouse w') = bs"
    by (simp add: lg(1,3,4) insert_batches_append insert_batches_map)
  have full: "\<forall>x \<in> set (butlast bs). length x = nat batch_size"
    using lg(7) by auto
  have bound: "\<forall>x \<in> set bs. x \<noteq> [] \<and> length x \<le> nat batch_size"
    using lg(8) by auto
  have all: "concat bs = map (wh_row_of rt ind d) (yielded s)"
    using lg(2,5) by simp
  have "0 < nat batch_size" using assms(1) by simp
  from batch_count [OF this full bound] all
  have count: "length bs = (length (yielded s) + nat batch_size - 1) div nat batch_size"
    by simp
  from run lg(6) ib full bound all count show ?thesis by simp
qed

theorem insert_calls_per_batch_witness:
  "(1::int) \<le> 2 \<and> no_faults plain_runtime
   \<and> (\<exists>config. get_snowflake_config (environ configured_world) = Inr config)
   \<and> ending (yield_all five_records Return) = Return \<and> warehouse configured_world = []
   \<and> (\<exists>w'. write_jsonl_and_snowflake plain_runtime ''out'' (yield_all five_records Return)
               ''t'' ''X'' ''2026-01-01'' 2 configured_world = Some (Inr 5, w')
          \<and> length (insert_batches (warehouse w')) = 3
          \<and> map length (insert_batches (warehouse w')) = [2, 2, 1])"
proof -
  let ?s = "yield_all five_records (Return :: nat rows)"
  let ?run = "write_jsonl_and_snowflake plain_runtime ''out'' ?s ''t'' ''X'' ''2026-01-01'' 2
                configured_world"
  have a: "(1::int) \<le> 2" by simp
  have b: "no_faults plain_runtime" by (simp add: no_faults_def plain_runtime_def)
  obtain config where c: "get_snowflake_config (environ configured_world) = Inr config"
    by (cases "get_snowflake_config (environ configured_world)")
       (simp_all add: get_snowflake_config_def configured_world_def env_map_def
          optional_env_map_def getenv_truthy_def truthy_str_def)
  have d: "ending ?s = Return" by (simp add: ending_yield_all)
  have e: "warehouse configured_world = []" by (simp add: configured_world_def)
  have y: "length (yielded ?s) = 5" by (simp add: yielded_yield_all five_records_def)
  have sizes: "map_option (\<lambda>rw. map length (insert_batches (warehouse (snd rw)))) ?run
                 = Some [2, 2, 1]"
    by code_simp
  from insert_calls_per_batch [OF a b c d e, of "''out''" "''t''" "''X''" "''2026-01-01''"]
  obtain w' where w':
    "?run = Some (Inr (length (yielded ?s)), w')"
    "length (insert_batches (warehouse w')) = (length (yielded ?s) + nat 2 - 1) div nat 2"
    by blast
  from w'(1) sizes have "map length (insert_batches (warehouse w')) = [2, 2, 1]" by simp
  moreover from w'(2) y have "length (insert_batches (warehouse w')) = 3" by simp
  ultimately have "?run = Some (Inr 5, w') \<and> length (insert_batches (warehouse w')) = 3
                     \<and> map length (insert_batches (warehouse w')) = [2, 2, 1]"
    using w'(1) y by simp
  then have "\<exists>w'. ?run = Some (Inr 5, w') \<and> length (insert_batches (warehouse w')) = 3
                     \<and> map length (insert_batches (warehouse w')) = [2, 2, 1]" ..
  with a b c d e show ?thesis by blast
qed

subsection \<open>One commit, after the last batch\<close>









subsection \<open>The correlation id of a mirrored record\<close>

lemma inserted_rows_inserts:
  "inserted_rows ([Connect config] @ pre @ map (ExecuteMany t) bs @ post @ [Close]) = concat bs"
  if "pre = [] \<or> pre = [CreateTable t]" and "post = [] \<or> post = [Commit]"
  using that by (auto simp: inserted_rows_def insert_batches_append insert_batches_map)

lemma prefix_of_map:
  assumes "xs @ rest = map f ys"
  shows "length xs \<le> length ys \<and> xs = map f (take (length xs) ys)"
proof -
  have "length xs + length rest = length ys"
    using assms by (metis length_append length_map)
  moreover have "xs = take (length xs) (map f ys)"
    using assms by (metis append_eq_conv_conj)
  ultimately show ?thesis by (simp add: take_map)
qed

text \<open>
  Claim C10. In every run of the dual sink that ends, the rows inserted are, in order,
  the rows of the first \<open>k\<close> records of the sequence (all of them when the run
  returns), and the id column of each row is the record's value under the exact key
  \<open>Id\<close>: that value when the record has the key, and null (\<open>None\<close>) when it has not,
  whatever other keys it has.
\<close>

theorem correlation_id_is_exact_key_Id:
  assumes "write_jsonl_and_snowflake rt path s t ind d b w = Some (res, w')"
    and "warehouse w = []"
  shows "(\<exists>k \<le> length (yielded s).
            inserted_rows (warehouse w')
              = map (\<lambda>row. (ind, d, dict_get row ''Id'', json_dumps rt row)) (take k (yielded s))
            \<and> (\<forall>n. res = Inr n \<longrightarrow> k = length (yielded s)))
     \<and> (\<forall>row v. distinct (map fst row)
           \<longrightarrow> (dict_get row ''Id'' = Some v \<longleftrightarrow> (''Id'', v) \<in> set row))
     \<and> (\<forall>row. ''Id'' \<notin> fst ` set row \<longrightarrow> dict_get row ''Id'' = None)"
proof (intro conjI)
  let ?f = "\<lambda>row. (ind, d, dict_get row ''Id'', json_dumps rt row)"
  have f: "wh_row_of rt ind d = ?f" by (rule ext) (simp add: wh_row_of_def)
  note lg = write_jsonl_and_snowflake_log [OF assms]
  show "\<exists>k \<le> length (yielded s).
               inserted_rows (warehouse w') = map ?f (take k (yielded s))
               \<and> (\<forall>n. res = Inr n \<longrightarrow> k = length (yielded s))"
  proof (rule disjE [OF lg])
    assume none: "warehouse w' = [] \<and> (\<exists>e. res = Inl e)"
    then have "inserted_rows (warehouse w') = map ?f (take 0 (yielded s))"
      by (simp add: inserted_rows_def)
    moreover from none have "\<forall>n. res = Inr n \<longrightarrow> 0 = length (yielded s)" by auto
    ultimately show ?thesis by (intro exI [of _ 0]) simp
  next
    assume "\<exists>config pre bs rest post.
           warehouse w' = [Connect config] @ pre @ map (ExecuteMany t) bs @ post @ [Close]
         \<and> get_snowflake_config (environ w) = Inr config
         \<and> concat bs @ rest = map (wh_row_of rt ind d) (yielded s)
         \<and> (pre = [] \<or> pre = [CreateTable t])
         \<and> ((\<exists>e. res = Inl e) \<longrightarrow> post = [])
         \<and> (\<forall>n. res = Inr n
               \<longrightarrow> pre = [CreateTable t] \<and> post = [Commit] \<and> rest = [] \<and> ending s = Return
                   \<and> n = length (yielded s)
                   \<and> (1 \<le> b \<longrightarrow> (\<forall>x \<in> set (butlast bs). int (length x) = b)
                                  \<and> (\<forall>x \<in> set bs. x \<noteq> [] \<and> int (length x) \<le> b)))"
    then obtain config pre bs rest post where some:
      "warehouse w' = [Connect config] @ pre @ map (ExecuteMany t) bs @ post @ [Close]"
      "get_snowflake_config (environ w) = Inr config"
      "concat bs @ rest = map (wh_row_of rt ind d) (yielded s)"
      "pre = [] \<or> pre = [CreateTable t]"
      "(\<exists>e. res = Inl e) \<longrightarrow> post = []"
      "\<forall>n. res = Inr n
               \<longrightarrow> pre = [CreateTable t] \<and> post = [Commit] \<and> rest = [] \<and> ending s = Return
                   \<and> n = length (yielded s)
                   \<and> (1 \<le> b \<longrightarrow> (\<forall>x \<in> set (butlast bs). int (length x) = b)
                                  \<and> (\<forall>x \<in> set bs. x \<noteq> [] \<and> int (length x) \<le> b))"
      by (elim exE conjE) (rule that)
    have post: "post = [] \<or> post = [Commit]"
    proof (cases res)
      case (Inl e)
      with some(5) show ?thesis by simp
    next
      case (Inr n)
      with some(6) show ?thesis by simp
    qed
    have ir: "inserted_rows (warehouse w') = concat bs"
      unfolding some(1) using some(4) post by (rule inserted_rows_inserts)
    from prefix_of_map [OF some(3)]
    have k: "length (concat bs) \<le> length (yielded s)"
      "concat bs = map ?f (take (length (concat bs)) (yielded s))"
      by (simp_all add: f)
    have "\<forall>n. res = Inr n \<longrightarrow> length (concat bs) = length (yielded s)"
    proof (intro allI impI)
      fix n assume "res = Inr n"
      with some(6) have "rest = []" by simp
      with some(3) have "concat bs = map (wh_row_of rt ind d) (yielded s)" by simp
      then show "length (concat bs) = length (yielded s)" by (metis length_map)
    qed
    with k ir show ?thesis by (intro exI [of _ "length (concat bs)"]) simp
  qed
next
  show "\<forall>row v. distinct (map fst row)
          \<longrightarrow> (dict_get row ''Id'' = Some v \<longleftrightarrow> (''Id'', v) \<in> set row)"
    by (simp add: dict_get_def)
next
  show "\<forall>row. ''Id'' \<notin> fst ` set row \<longrightarrow> dict_get row ''Id'' = None"
    by (simp add: dict_get_def map_of_eq_None_iff)
qed

theorem correlation_id_is_exact_key_Id_witness:
  "warehouse configured_world = []
   \<and> (\<exists>w'. write_jsonl_and_snowflake plain_runtime ''out'' (yield_all mixed_case_records Return)
               ''t'' ''X'' ''2026-01-01'' 2 configured_world = Some (Inr 3, w')
          \<and> inserted_rows (warehouse w')
              = [(''X'', ''2026-01-01'', None, ''{}''),
                 (''X'', ''2026-01-01'', Some 8, ''8''),
                 (''X'', ''2026-01-01'', None, ''{}'')])
   \<and> dict_get [(''id'', 7::nat)] ''Id'' = None
   \<and> dict_get [(''Id'', 8::nat)] ''Id'' = Some 8
   \<and> dict_get [(''ID'', 9::nat)] ''Id'' = None"
proof -
  let ?s = "yield_all mixed_case_records (Return :: nat rows)"
  let ?run = "write_jsonl_and_snowflake plain_runtime ''out'' ?s ''t'' ''X'' ''2026-01-01'' 2
                configured_world"
  have fresh: "warehouse configured_world = []" by (simp add: configured_world_def)
  have ys: "yielded ?s = mixed_case_records" by (simp add: yielded_yield_all)
  have res: "map_option fst ?run = Some (Inr 3)" by code_simp
  then obtain w' where run: "?run = Some (Inr 3, w')" by (cases ?run) auto
  have rows: "map (\<lambda>row. (''X'', ''2026-01-01'', dict_get row ''Id'', json_dumps plain_runtime row))
                mixed_case_records
              = [(''X'', ''2026-01-01'', None, ''{}''),
                 (''X'', ''2026-01-01'', Some 8, ''8''),
                 (''X'', ''2026-01-01'', None, ''{}'')]"
    by code_simp
  from correlation_id_is_exact_key_Id [OF run fresh]
  obtain k where k: "k \<le> length (yielded ?s)"
    "inserted_rows (warehouse w')
       = map (\<lambda>row. (''X'', ''2026-01-01'', dict_get row ''Id'', json_dumps plain_runtime row))
           (take k (yielded ?s))"
    "\<forall>n. (Inr 3 :: error + nat) = Inr n \<longrightarrow> k = length (yielded ?s)"
    by (elim exE conjE) (rule that)
  from k(3) have k3: "k = length (yielded ?s)" by simp
  from k(2) k3 ys rows have "inserted_rows (warehouse w')
              = [(''X'', ''2026-01-01'', None, ''{}''),
                 (''X'', ''2026-01-01'', Some 8, ''8''),
                 (''X'', ''2026-01-01'', None, ''{}'')]"
    by simp
  with run have A: "\<exists>w'. ?run = Some (Inr 3, w')
          \<and> inserted_rows (warehouse w')
              = [(''X'', ''2026-01-01'', None, ''{}''),
                 (''X'', ''2026-01-01'', Some 8, ''8''),
                 (''X'', ''2026-01-01'', None, ''{}'')]"
    by (intro exI [of _ w']) simp
  have B: "dict_get [(''id'', 7::nat)] ''Id'' = None" "dict_get [(''Id'', 8::nat)] ''Id'' = Some 8"
    "dict_get [(''ID'', 9::nat)] ''Id'' = None"
    by (simp_all add: dict_get_def)
  from fresh A B show ?thesis by (intro conjI)
qed

end
